theory Spec2Isabelle
  imports Complex_Main "HOL-Library.Product_Lexorder"
begin

section \<open>Collateral monitoring tool: present values of projected cashflows\<close>

text \<open>
  The program (\<^verbatim>\<open>pv_calculation.py\<close>) is a notebook of whole-column operations on
  pandas data frames. A column is modelled as a list, one entry per row of the frame, and
  every cell of the notebook as a function from the columns it reads to the columns it
  writes.

  Numbers. The columns hold IEEE double-precision floats. They are modelled by the real
  numbers they denote, so rounding, overflow and underflow are outside the model, and a
  float that is not a number (\<^verbatim>\<open>NaN\<close>, which pandas also uses for a missing cell) is
  \<open>None\<close>: a column that may hold \<^verbatim>\<open>NaN\<close> has entries of type \<open>float\<close>.

  Errors. An exception raised by Python or by a library call is a value \<open>Inl e\<close> of the
  result.
\<close>

type_synonym float = "real option"

datatype error = ValueError | ZeroDivisionError

section \<open>The yield curve and the discount factors (section 3 of the notebook)\<close>

text \<open>
  \<^verbatim>\<open>treasury_curve_final\<close> has one row per tenor of the treasury file, with the columns
  \<^verbatim>\<open>Tenors\<close> (the label, a string) and \<^verbatim>\<open>Rate\<close> (the annual rate in percent, \<^verbatim>\<open>NaN\<close>
  where the file has no value). It is the input of the curve construction: a list of
  pairs (label, rate). Reading the file, the valuation date and the two plots are
  outside the model, which starts at the computation of the maturities.
\<close>

subsection \<open>The column Maturities\<close>

text \<open>
  \<^verbatim>\<open>Series.astype(int)\<close> on a column of strings applies Python's \<^verbatim>\<open>int\<close> to every
  cell: surrounding whitespace is stripped, an optional sign follows, then one or more
  decimal digits; anything else raises \<^verbatim>\<open>ValueError\<close>. (Digit grouping with an
  underscore needs three characters at least, and the cells converted here have at most
  two.) Labels are taken to be ASCII, where the whitespace that \<^verbatim>\<open>int\<close> strips is the
  space and the characters 9 to 13 (tab, line feed, vertical tab, form feed, carriage
  return).
\<close>

definition py_isspace :: "char \<Rightarrow> bool" where
  "py_isspace c = ((9 \<le> (of_char c :: nat) \<and> (of_char c :: nat) \<le> 13)
                 \<or> (of_char c :: nat) = 32)"

definition py_isdigit :: "char \<Rightarrow> bool" where
  "py_isdigit c = (48 \<le> (of_char c :: nat) \<and> (of_char c :: nat) \<le> 57)"

definition digits_value :: "string \<Rightarrow> nat" where
  "digits_value ds = foldl (\<lambda>a c. 10 * a + (of_char c - 48)) 0 ds"

definition py_strip :: "string \<Rightarrow> string" where
  "py_strip s = rev (dropWhile py_isspace (rev (dropWhile py_isspace s)))"

definition py_int :: "string \<Rightarrow> error + int" where
  "py_int s =
     (let t = py_strip s;
          neg = (t \<noteq> [] \<and> hd t = CHR ''-'');
          ds = (if t \<noteq> [] \<and> (hd t = CHR ''-'' \<or> hd t = CHR ''+'') then tl t else t)
      in if ds \<noteq> [] \<and> list_all py_isdigit ds
         then Inr (if neg then - int (digits_value ds) else int (digits_value ds))
         else Inl ValueError)"

text \<open>
  \<^verbatim>\<open>np.where(Tenors.str[-2:]=='Mo', Tenors.str[:1].astype(int)/12, Tenors.str[:2].astype(int))\<close>.
  The three arguments of \<^verbatim>\<open>np.where\<close> are whole columns, computed before the selection:
  both conversions run on every label, and a label that fails either of them raises.
\<close>

definition Maturities_cell :: "string \<Rightarrow> error + real" where
  "Maturities_cell tenor =
     (case py_int (take 1 tenor) of
        Inl e \<Rightarrow> Inl e
      | Inr months \<Rightarrow>
          (case py_int (take 2 tenor) of
             Inl e \<Rightarrow> Inl e
           | Inr years \<Rightarrow>
               Inr (if drop (length tenor - 2) tenor = ''Mo''
                    then real_of_int months / 12 else real_of_int years)))"

fun Maturities :: "string list \<Rightarrow> error + real list" where
  "Maturities [] = Inr []"
| "Maturities (t # ts) =
     (case Maturities_cell t of
        Inl e \<Rightarrow> Inl e
      | Inr m \<Rightarrow> (case Maturities ts of Inl e \<Rightarrow> Inl e | Inr ms \<Rightarrow> Inr (m # ms)))"

subsection \<open>The monthly frame and its merge with the curve\<close>

text \<open>
  \<^verbatim>\<open>df = pd.DataFrame({'Months': range(1,361)}); df['Year'] = df['Months']/12\<close>:
  the rows (Months, Year).
\<close>

definition df :: "(nat \<times> real) list" where
  "df = map (\<lambda>m. (m, real m / 12)) [1..<361]"

text \<open>
  A row of \<^verbatim>\<open>df.merge(treasury_curve_final, left_on='Year', right_on='Maturities', how='left')\<close>.
  The column \<^verbatim>\<open>Tenors\<close> is carried along by the program and dropped before it is ever
  read; the model leaves it out. The cells of \<^verbatim>\<open>Rate\<close> are floats (\<open>'r\<close> is \<open>real\<close>)
  when the column has the dtype \<^verbatim>\<open>float64\<close>, and Python objects when it has the dtype
  \<^verbatim>\<open>object\<close>; in both a missing cell is \<open>None\<close>.
\<close>

record 'r merged_row =
  m_Months :: nat
  m_Year :: real
  m_Rate :: "'r option"
  m_Maturities :: float

text \<open>
  The left merge keeps every row of the left frame, in order. A left row is joined with
  each right row (Rate, Maturities) whose key equals its own, in the order of the right
  frame; a left row without a partner is kept once, with \<^verbatim>\<open>NaN\<close> in the right columns.
\<close>

definition merge_row :: "('r option \<times> real) list \<Rightarrow> nat \<times> real \<Rightarrow> 'r merged_row list" where
  "merge_row right l =
     (let hits = filter (\<lambda>r. snd r = snd l) right
      in if hits = []
         then [\<lparr> m_Months = fst l, m_Year = snd l, m_Rate = None, m_Maturities = None \<rparr>]
         else map (\<lambda>r. \<lparr> m_Months = fst l, m_Year = snd l, m_Rate = fst r,
                          m_Maturities = Some (snd r) \<rparr>) hits)"

definition merge_left ::
  "(nat \<times> real) list \<Rightarrow> ('r option \<times> real) list \<Rightarrow> 'r merged_row list" where
  "merge_left left right = concat (map (merge_row right) left)"

text \<open>
  \<^verbatim>\<open>.fillna(method='ffill')\<close>, column by column: a \<^verbatim>\<open>NaN\<close> cell takes the last value
  above it that is not \<^verbatim>\<open>NaN\<close>, and stays \<^verbatim>\<open>NaN\<close> when there is none. The first
  argument is the value carried from the rows above.
\<close>

fun ffill :: "'a option \<Rightarrow> 'a option list \<Rightarrow> 'a option list" where
  "ffill carry [] = []"
| "ffill carry (None # xs) = carry # ffill carry xs"
| "ffill carry (Some v # xs) = Some v # ffill (Some v) xs"

subsection \<open>Linear interpolation\<close>

text \<open>
  \<^verbatim>\<open>scipy.interpolate.interp1d(x, y)\<close> with its defaults: \<^verbatim>\<open>kind='linear'\<close>,
  \<^verbatim>\<open>assume_sorted=False\<close>, and \<^verbatim>\<open>bounds_error\<close> in force because no
  \<^verbatim>\<open>fill_value\<close> is given.

  The constructor sorts the points by \<open>x\<close> with a stable sort that puts \<^verbatim>\<open>NaN\<close> last
  (\<^verbatim>\<open>np.argsort(x, kind="mergesort")\<close>).
\<close>

definition nan_last :: "float \<Rightarrow> bool \<times> real" where
  "nan_last x = (case x of None \<Rightarrow> (True, 0) | Some v \<Rightarrow> (False, v))"

definition interp1d :: "float list \<Rightarrow> float list \<Rightarrow> (float \<times> float) list" where
  "interp1d x y = sort_key (\<lambda>p. nan_last (fst p)) (zip x y)"

text \<open>A comparison of floats is false when either side is \<^verbatim>\<open>NaN\<close>.\<close>

definition flt_less :: "float \<Rightarrow> float \<Rightarrow> bool" where
  "flt_less a b = (case a of None \<Rightarrow> False
                   | Some u \<Rightarrow> (case b of None \<Rightarrow> False | Some v \<Rightarrow> u < v))"

definition flt_le :: "float \<Rightarrow> float \<Rightarrow> bool" where
  "flt_le a b = (case a of None \<Rightarrow> False
                 | Some u \<Rightarrow> (case b of None \<Rightarrow> False | Some v \<Rightarrow> u \<le> v))"

text \<open>
  For one-dimensional float data the interpolant evaluates by \<^verbatim>\<open>np.interp(x_new, x, y)\<close>.
  With \<open>j\<close> the index such that \<open>x[j] \<le> q < x[j+1]\<close>, its value at \<open>q\<close> is \<open>y[j]\<close>
  when \<open>j\<close> is the last index or \<open>x[j] = q\<close>, and
  \<^verbatim>\<open>slope*(q - x[j]) + y[j]\<close> with \<^verbatim>\<open>slope = (y[j+1] - y[j]) / (x[j+1] - x[j])\<close>
  otherwise, which is \<^verbatim>\<open>NaN\<close> as soon as one of its operands is. Below \<open>x[0]\<close> it
  returns \<open>y[0]\<close> and above the last \<open>x\<close> the last \<open>y\<close>. numpy finds \<open>j\<close> by moving
  right as long as \<^verbatim>\<open>q >= x[i]\<close> holds for the next point (a linear scan on short
  arrays, a bisection with the same test on long ones); the model walks the sorted points
  from the left with that test, so it stops in front of the first \<open>x\<close> that is larger
  than \<open>q\<close> or \<^verbatim>\<open>NaN\<close>. After the forward fill the same \<open>x\<close> occurs in many rows;
  among equal \<open>x\<close> the index found is the last of them, in numpy as in the walk.
\<close>

definition lin_segment :: "float \<Rightarrow> float \<Rightarrow> float \<Rightarrow> float \<Rightarrow> real \<Rightarrow> float" where
  "lin_segment x0 y0 x1 y1 q =
     (case (x0, y0, x1, y1) of
        (Some a, Some ya, Some b, Some yb) \<Rightarrow> Some ((yb - ya) / (b - a) * (q - a) + ya)
      | _ \<Rightarrow> None)"

fun np_interp_walk :: "(float \<times> float) list \<Rightarrow> real \<Rightarrow> float" where
  "np_interp_walk [] q = None"
| "np_interp_walk [p] q = snd p"
| "np_interp_walk (p0 # p1 # ps) q =
     (if flt_le (fst p1) (Some q) then np_interp_walk (p1 # ps) q
      else if fst p0 = Some q then snd p0
      else lin_segment (fst p0) (snd p0) (fst p1) (snd p1) q)"

definition np_interp :: "(float \<times> float) list \<Rightarrow> real \<Rightarrow> float" where
  "np_interp ps q =
     (if flt_less (Some q) (fst (hd ps)) then snd (hd ps)
      else if flt_less (fst (last ps)) (Some q) then snd (last ps)
      else np_interp_walk ps q)"

text \<open>
  \<^verbatim>\<open>y_interp(x_new)\<close>: the call raises \<^verbatim>\<open>ValueError\<close> when a query lies below the
  first or above the last of the sorted \<open>x\<close> (\<^verbatim>\<open>x_new < x[0]\<close>, \<^verbatim>\<open>x_new > x[-1]\<close>), and
  an interpolant over no points at all cannot be built.
\<close>

definition y_interp :: "float list \<Rightarrow> float list \<Rightarrow> real list \<Rightarrow> error + float list" where
  "y_interp x y x_new =
     (let ps = interp1d x y
      in if ps = [] then Inl ValueError
         else if \<exists>q\<in>set x_new. flt_less (Some q) (fst (hd ps)) then Inl ValueError
         else if \<exists>q\<in>set x_new. flt_less (fst (last ps)) (Some q) then Inl ValueError
         else Inr (map (np_interp ps) x_new))"

subsection \<open>The discount factor\<close>

text \<open>
  \<^verbatim>\<open>(1 + df_final['Rate_Interpolated'] / 100) ** (-df_final['Year'])\<close>. On a positive
  base the float power is the real power. A negative base has a real power only for a
  whole number of years; for any other exponent numpy returns \<^verbatim>\<open>NaN\<close>. A base of zero
  (a rate of exactly -100) gives an infinite float, which the model does not represent:
  it is \<open>None\<close> as well.
\<close>

definition VDF_cell :: "float \<Rightarrow> real \<Rightarrow> float" where
  "VDF_cell rate year =
     (case rate of
        None \<Rightarrow> None
      | Some r \<Rightarrow>
          if 0 < 1 + r / 100 then Some ((1 + r / 100) powr (- year))
          else if 1 + r / 100 < 0 \<and> real_of_int \<lfloor>year\<rfloor> = year
          then Some (1 / (1 + r / 100) ^ nat \<lfloor>year\<rfloor>)
          else None)"

text \<open>
  A row of \<^verbatim>\<open>df_final\<close> once \<^verbatim>\<open>Tenors\<close>, \<^verbatim>\<open>Rate\<close> and \<^verbatim>\<open>Maturities\<close> are dropped
  and \<^verbatim>\<open>VDF\<close> is added.
\<close>

record curve_entry =
  Months :: nat
  Year :: real
  Rate_Interpolated :: float
  VDF :: float

text \<open>
  Section 3 of the notebook as a whole, from \<^verbatim>\<open>treasury_curve_final\<close> to
  \<^verbatim>\<open>df_final\<close>, for a column \<^verbatim>\<open>Rate\<close> of floats (every rate of the file is a number
  or is missing).
\<close>

definition build_curve :: "(string \<times> float) list \<Rightarrow> error + curve_entry list" where
  "build_curve treasury_curve_final =
     (case Maturities (map fst treasury_curve_final) of
        Inl e \<Rightarrow> Inl e
      | Inr mats \<Rightarrow>
          let merged = merge_left df (zip (map snd treasury_curve_final) mats);
              rate = ffill None (map m_Rate merged);
              maturities = ffill None (map m_Maturities merged)
          in (case y_interp maturities rate (map m_Year merged) of
                Inl e \<Rightarrow> Inl e
              | Inr rate_interpolated \<Rightarrow>
                  Inr (map2 (\<lambda>row r. \<lparr> Months = m_Months row, Year = m_Year row,
                                          Rate_Interpolated = r,
                                          VDF = VDF_cell r (m_Year row) \<rparr>)
                         merged rate_interpolated)))"

subsection \<open>A Rate column of Python objects\<close>








section \<open>Cashflow valuation (sections 4 to 6 of the notebook)\<close>

text \<open>
  The cell \<^verbatim>\<open>Assumptions and Inputs\<close> binds \<^verbatim>\<open>CF\<close>, \<^verbatim>\<open>annual_qx\<close> and
  \<^verbatim>\<open>base_mortality_shock\<close> (to 100000, 0.03 and 0.5); they are the parameters of the
  functions below.
  \<^verbatim>\<open>monthly_qx = annual_qx/12\<close>
\<close>

definition monthly_qx :: "real \<Rightarrow> real" where
  "monthly_qx annual_qx = annual_qx / 12"

text \<open>
  The single-month survival probabilities of the three scenarios:
  \<^verbatim>\<open>(1-monthly_qx)\<close>, \<^verbatim>\<open>(1-monthly_qx*(1+base_mortality_shock))\<close> and
  \<^verbatim>\<open>(1-monthly_qx/(1+base_mortality_shock))\<close>. The operands are Python floats, so the
  division raises \<^verbatim>\<open>ZeroDivisionError\<close> when \<^verbatim>\<open>1+base_mortality_shock\<close> is zero.
\<close>

definition Survivorship :: "real \<Rightarrow> real" where
  "Survivorship annual_qx = 1 - monthly_qx annual_qx"

definition Survivorship_Best :: "real \<Rightarrow> real \<Rightarrow> real" where
  "Survivorship_Best annual_qx base_mortality_shock =
     1 - monthly_qx annual_qx * (1 + base_mortality_shock)"

definition Survivorship_Worst :: "real \<Rightarrow> real \<Rightarrow> error + real" where
  "Survivorship_Worst annual_qx base_mortality_shock =
     (if 1 + base_mortality_shock = 0 then Inl ZeroDivisionError
      else Inr (1 - monthly_qx annual_qx / (1 + base_mortality_shock)))"

text \<open>\<^verbatim>\<open>Series.cumprod()\<close>: the running product of a column, from its first row on.\<close>

fun cumprod_from :: "real \<Rightarrow> real list \<Rightarrow> real list" where
  "cumprod_from acc [] = []"
| "cumprod_from acc (x # xs) = (acc * x) # cumprod_from (acc * x) xs"

definition cumprod :: "real list \<Rightarrow> real list" where
  "cumprod xs = cumprod_from 1 xs"

text \<open>
  \<^verbatim>\<open>df_final['VDF'] * df_final['Decremented_CFs']\<close>: the discount factor may be
  \<^verbatim>\<open>NaN\<close>, and then so is the product.
\<close>

definition fmul :: "float \<Rightarrow> real \<Rightarrow> float" where
  "fmul d c = map_option (\<lambda>x. x * c) d"

text \<open>\<^verbatim>\<open>Series.sum()\<close> skips \<^verbatim>\<open>NaN\<close> entries (\<^verbatim>\<open>skipna=True\<close> is the default).\<close>

definition sum_skipna :: "float list \<Rightarrow> real" where
  "sum_skipna xs = sum_list (map (\<lambda>x. case x of None \<Rightarrow> 0 | Some v \<Rightarrow> v) xs)"

text \<open>
  The columns the valuation adds to \<^verbatim>\<open>df_final\<close>, and the series \<^verbatim>\<open>total\<close>. The
  suffix \<^verbatim>\<open>_Best\<close> is the scenario the specification calls Favorable (more deaths than
  expected), \<^verbatim>\<open>_Worst\<close> is Adverse, and no suffix is BestEstimate.
\<close>

record valuation =
  Cumulative_Survivorship :: "real list"
  Cumulative_Survivorship_Best :: "real list"
  Cumulative_Survivorship_Worst :: "real list"
  Decremented_CFs :: "real list"
  Decremented_CFs_Best :: "real list"
  Decremented_CFs_Worst :: "real list"
  PV :: "float list"
  PV_Best :: "float list"
  PV_Worst :: "float list"
  total_PV :: real
  total_PV_Best :: real
  total_PV_Worst :: real

text \<open>
  Sections 4 to 6 on a frame whose discount-factor column \<^verbatim>\<open>df_final['VDF']\<close> is \<open>vdf\<close>. Assigning a scalar to a
  column (\<^verbatim>\<open>df_final['Survivorship'] = (1-monthly_qx)\<close>) fills every row with it.
\<close>

definition valuate :: "float list \<Rightarrow> real \<Rightarrow> real \<Rightarrow> real \<Rightarrow> error + valuation" where
  "valuate vdf CF annual_qx base_mortality_shock =
     (case Survivorship_Worst annual_qx base_mortality_shock of
        Inl e \<Rightarrow> Inl e
      | Inr worst \<Rightarrow>
          let n = length vdf;
              cs = cumprod (replicate n (Survivorship annual_qx));
              cs_best = cumprod (replicate n (Survivorship_Best annual_qx base_mortality_shock));
              cs_worst = cumprod (replicate n worst);
              dec = map (\<lambda>s. CF * s) cs;
              dec_best = map (\<lambda>s. CF * s) cs_best;
              dec_worst = map (\<lambda>s. CF * s) cs_worst;
              pv = map2 fmul vdf dec;
              pv_best = map2 fmul vdf dec_best;
              pv_worst = map2 fmul vdf dec_worst
          in Inr \<lparr> Cumulative_Survivorship = cs,
                   Cumulative_Survivorship_Best = cs_best,
                   Cumulative_Survivorship_Worst = cs_worst,
                   Decremented_CFs = dec,
                   Decremented_CFs_Best = dec_best,
                   Decremented_CFs_Worst = dec_worst,
                   PV = pv, PV_Best = pv_best, PV_Worst = pv_worst,
                   total_PV = sum_skipna pv,
                   total_PV_Best = sum_skipna pv_best,
                   total_PV_Worst = sum_skipna pv_worst \<rparr>)"

section \<open>Properties of the valuation\<close>

lemma length_cumprod_from: "length (cumprod_from acc xs) = length xs"
  by (induction xs arbitrary: acc) simp_all

lemma cumprod_from_replicate_nth:
  "i < n \<Longrightarrow> cumprod_from acc (replicate n p) ! i = acc * p ^ Suc i"
proof (induction n arbitrary: acc i)
  case 0
  then show ?case by simp
next
  case (Suc n)
  show ?case
  proof (cases i)
    case 0
    then show ?thesis by simp
  next
    case (Suc j)
    with Suc.prems have "j < n" by simp
    from Suc.IH [OF this, of "acc * p"] Suc show ?thesis
      by (simp add: mult.assoc)
  qed
qed

lemma length_cumprod_replicate: "length (cumprod (replicate n p)) = n"
  by (simp add: cumprod_def length_cumprod_from)

lemma cumprod_replicate_nth: "i < n \<Longrightarrow> cumprod (replicate n p) ! i = p ^ Suc i"
  by (simp add: cumprod_def cumprod_from_replicate_nth)

text \<open>
  C8. With a shock of zero the valuation always returns, and the three totals of the
  present values (BestEstimate, Favorable, Adverse) are the same number.
\<close>

theorem scenario_collapse:
  "\<exists>v. valuate vdf CF annual_qx 0 = Inr v
     \<and> total_PV_Best v = total_PV v \<and> total_PV_Worst v = total_PV v"
  by (simp add: valuate_def Survivorship_Worst_def Survivorship_Best_def Survivorship_def Let_def)

lemma valuate_Inr:
  "1 + s \<noteq> 0 \<Longrightarrow> \<exists>v. valuate vdf CF annual_qx s = Inr v"
  by (simp add: valuate_def Survivorship_Worst_def Let_def)

lemma valuate_length_PV:
  "valuate vdf CF annual_qx s = Inr v \<Longrightarrow> length (PV v) = length vdf"
  by (auto simp: valuate_def Let_def length_cumprod_replicate split: sum.splits)

lemma valuate_columns:
  assumes "valuate vdf CF annual_qx s = Inr v"
  shows "Cumulative_Survivorship v = cumprod (replicate (length vdf) (Survivorship annual_qx))"
    and "Cumulative_Survivorship_Best v = cumprod (replicate (length vdf) (Survivorship_Best annual_qx s))"
    and "Survivorship_Worst annual_qx s = Inr p \<Longrightarrow>
           Cumulative_Survivorship_Worst v = cumprod (replicate (length vdf) p)"
    and "total_PV v = sum_skipna (map2 fmul vdf (map (\<lambda>s. CF * s) (Cumulative_Survivorship v)))"
    and "total_PV_Best v = sum_skipna (map2 fmul vdf (map (\<lambda>s. CF * s) (Cumulative_Survivorship_Best v)))"
    and "total_PV_Worst v = sum_skipna (map2 fmul vdf (map (\<lambda>s. CF * s) (Cumulative_Survivorship_Worst v)))"
  using assms by (auto simp: valuate_def Let_def split: sum.splits)

lemma power_column:
  assumes "0 < p" "p < 1" "i < n"
  shows "cumprod (replicate n p) ! i = (if i = 0 then 1 else cumprod (replicate n p) ! (i - 1)) * p
       \<and> cumprod (replicate n p) ! i = p ^ Suc i
       \<and> 0 < cumprod (replicate n p) ! i \<and> cumprod (replicate n p) ! i \<le> 1
       \<and> (0 < i \<longrightarrow> cumprod (replicate n p) ! i \<le> cumprod (replicate n p) ! (i - 1))"
proof -
  have nth: "cumprod (replicate n p) ! i = p ^ Suc i"
    using assms by (simp add: cumprod_replicate_nth)
  have prev: "0 < i \<Longrightarrow> cumprod (replicate n p) ! (i - 1) = p ^ i"
    using assms cumprod_replicate_nth [of "i - 1" n p] by simp
  have le1: "p ^ Suc i \<le> 1"
    using assms by (intro power_le_one) simp_all
  have pos: "0 < p ^ Suc i"
    using assms by simp
  have step: "p ^ Suc i \<le> p ^ i"
    using assms by (simp add: mult_left_le_one_le)
  show ?thesis
    using nth prev le1 pos step by (cases "i = 0") simp_all
qed

text \<open>
  The cumulative survivorship in exact arithmetic (the subject of C2). In each scenario
  whose single-month survival probability \<open>p\<close> lies strictly between 0 and 1, the column
  has one entry per month; the entry of month \<open>i + 1\<close> (row \<open>i\<close>) is the entry of the
  month before times \<open>p\<close>, starting from 1 before the first month, so it is \<open>p\<close> to the
  power of the month; it lies in the interval from 0 (excluded) to 1, and it is never
  above the entry of the month before. This is a statement about the real numbers only:
  the float64 product of the program rounds at every step and underflows, so that for
  \<open>p = 1/8\<close> it is \<^verbatim>\<open>0.0\<close> from month 359 on, where the real product is positive.
\<close>

lemma cumulative_survivorship_running_product:
  assumes "valuate vdf CF annual_qx base_mortality_shock = Inr v"
    and "(p = Survivorship annual_qx \<and> S = Cumulative_Survivorship v)
       \<or> (p = Survivorship_Best annual_qx base_mortality_shock \<and> S = Cumulative_Survivorship_Best v)
       \<or> (Survivorship_Worst annual_qx base_mortality_shock = Inr p \<and> S = Cumulative_Survivorship_Worst v)"
    and "0 < p" and "p < 1" and "i < length vdf"
  shows "length S = length vdf
       \<and> S ! i = (if i = 0 then 1 else S ! (i - 1)) * p
       \<and> S ! i = p ^ Suc i
       \<and> 0 < S ! i \<and> S ! i \<le> 1
       \<and> (0 < i \<longrightarrow> S ! i \<le> S ! (i - 1))"
proof -
  from assms(1,2) have S: "S = cumprod (replicate (length vdf) p)"
    by (auto simp: valuate_columns)
  have "length S = length vdf"
    unfolding S by (rule length_cumprod_replicate)
  with power_column [OF assms(3,4,5)] show ?thesis
    unfolding S by blast
qed

lemma shock_order:
  assumes "0 < s" "0 < monthly_qx a * (1 + s)" "monthly_qx a * (1 + s) < 1"
  shows "0 < Survivorship_Best a s" "Survivorship_Best a s \<le> Survivorship a"
        "Survivorship a \<le> 1 - monthly_qx a / (1 + s)"
proof -
  have s1: "0 < 1 + s" using assms(1) by simp
  have q: "0 < monthly_qx a"
    using assms(2) s1 by (simp add: zero_less_mult_iff)
  show "0 < Survivorship_Best a s"
    using assms(3) by (simp add: Survivorship_Best_def)
  have "monthly_qx a * 1 \<le> monthly_qx a * (1 + s)"
    using q assms(1) by (intro mult_left_mono) simp_all
  then show "Survivorship_Best a s \<le> Survivorship a"
    by (simp add: Survivorship_Best_def Survivorship_def)
  have "monthly_qx a / (1 + s) \<le> monthly_qx a / 1"
    using q assms(1) by (intro divide_left_mono) simp_all
  then show "Survivorship a \<le> 1 - monthly_qx a / (1 + s)"
    by (simp add: Survivorship_def)
qed

text \<open>
  C7. For a shock above zero and a monthly decrement rate with
  \<open>0 < monthly_qx * (1 + shock) < 1\<close>, the valuation returns and, in every month, the
  Favorable cumulative survivorship is at most the BestEstimate one, which is at most the
  Adverse one.
\<close>

theorem monotonic_shock_ordering:
  assumes "0 < base_mortality_shock"
    and "0 < monthly_qx annual_qx * (1 + base_mortality_shock)"
    and "monthly_qx annual_qx * (1 + base_mortality_shock) < 1"
  shows "\<exists>v. valuate vdf CF annual_qx base_mortality_shock = Inr v
     \<and> (\<forall>i<length vdf.
          Cumulative_Survivorship_Best v ! i \<le> Cumulative_Survivorship v ! i
        \<and> Cumulative_Survivorship v ! i \<le> Cumulative_Survivorship_Worst v ! i)"
proof -
  let ?s = base_mortality_shock
  have ne: "1 + ?s \<noteq> 0" using assms(1) by simp
  then obtain v where v: "valuate vdf CF annual_qx ?s = Inr v"
    using valuate_Inr by blast
  have w: "Survivorship_Worst annual_qx ?s = Inr (1 - monthly_qx annual_qx / (1 + ?s))"
    using ne by (simp add: Survivorship_Worst_def)
  note ord = shock_order [OF assms]
  have "Cumulative_Survivorship_Best v ! i \<le> Cumulative_Survivorship v ! i
      \<and> Cumulative_Survivorship v ! i \<le> Cumulative_Survivorship_Worst v ! i"
    if "i < length vdf" for i
  proof -
    have "Survivorship_Best annual_qx ?s ^ Suc i \<le> Survivorship annual_qx ^ Suc i"
      using ord(1,2) by (intro power_mono) simp_all
    moreover have "Survivorship annual_qx ^ Suc i \<le> (1 - monthly_qx annual_qx / (1 + ?s)) ^ Suc i"
      using ord by (intro power_mono) simp_all
    ultimately show ?thesis
      using that by (simp only: valuate_columns(1,2) [OF v] valuate_columns(3) [OF v w]
          cumprod_replicate_nth) 
  qed
  with v show ?thesis by blast
qed


lemma cumulative_survivorship_running_product_example:
  "\<exists>v. valuate [Some 1, Some 1] 100000 (3/100) (1/2) = Inr v
     \<and> (0::real) < 399/400 \<and> (399/400::real) < 1 \<and> (1::nat) < length [Some (1::real), Some 1]
     \<and> Survivorship (3/100) = 399/400
     \<and> length (Cumulative_Survivorship v) = 2
     \<and> Cumulative_Survivorship v ! 1 = Cumulative_Survivorship v ! 0 * (399/400)
     \<and> Cumulative_Survivorship v ! 1 = (399/400) ^ 2
     \<and> 0 < Cumulative_Survivorship v ! 1 \<and> Cumulative_Survivorship v ! 1 \<le> 1
     \<and> Cumulative_Survivorship v ! 1 \<le> Cumulative_Survivorship v ! 0"
proof -
  obtain v where v: "valuate [Some 1, Some 1] 100000 (3/100) (1/2) = Inr v"
    using valuate_Inr [of "1/2"] by fastforce
  have p: "Survivorship (3/100) = 399/400"
    by (simp add: Survivorship_def monthly_qx_def)
  have sc: "(399/400 = Survivorship (3/100) \<and> Cumulative_Survivorship v = Cumulative_Survivorship v)
      \<or> (399/400 = Survivorship_Best (3/100) (1/2) \<and> Cumulative_Survivorship v = Cumulative_Survivorship_Best v)
      \<or> (Survivorship_Worst (3/100) (1/2) = Inr (399/400) \<and> Cumulative_Survivorship v = Cumulative_Survivorship_Worst v)"
    using p by simp
  from cumulative_survivorship_running_product [OF v sc, of 1] v p show ?thesis
    by (simp add: numeral_2_eq_2)
qed

theorem monotonic_shock_ordering_witness:
  "(0::real) < 1/2 \<and> 0 < monthly_qx (3/100) * (1 + 1/2) \<and> monthly_qx (3/100) * (1 + 1/2) < 1
   \<and> (\<exists>v. valuate [Some 1, Some 1] 100000 (3/100) (1/2) = Inr v
     \<and> (1::nat) < length [Some (1::real), Some 1]
     \<and> Cumulative_Survivorship_Best v ! 1 \<le> Cumulative_Survivorship v ! 1
     \<and> Cumulative_Survivorship v ! 1 \<le> Cumulative_Survivorship_Worst v ! 1)"
proof -
  have h: "(0::real) < 1/2" "0 < monthly_qx (3/100) * (1 + 1/2)" "monthly_qx (3/100) * (1 + 1/2) < 1"
    by (simp_all add: monthly_qx_def)
  have l: "(1::nat) < length [Some (1::real), Some 1]" by simp
  from monotonic_shock_ordering [OF h, of "[Some 1, Some 1]" 100000] h l show ?thesis
    by blast
qed

lemma sum_skipna_Cons: "sum_skipna (Some x # xs) = x + sum_skipna xs"
  by (simp add: sum_skipna_def)

lemma total_mono:
  assumes "\<forall>d\<in>set vdf. \<exists>x. d = Some x \<and> 0 < x" and "0 \<le> CF" and "0 \<le> p" and "p \<le> q"
    and "0 \<le> a" and "a \<le> b"
  shows "sum_skipna (map2 fmul vdf (map (\<lambda>s. CF * s) (cumprod_from a (replicate (length vdf) p))))
       \<le> sum_skipna (map2 fmul vdf (map (\<lambda>s. CF * s) (cumprod_from b (replicate (length vdf) q))))"
  using assms
proof (induction vdf arbitrary: a b)
  case Nil
  then show ?case by (simp add: sum_skipna_def)
next
  case (Cons d ds)
  from Cons.prems(1) obtain x where d: "d = Some x" and x: "0 < x" by auto
  have ap: "a * p \<le> b * q"
    using Cons.prems by (intro mult_mono) simp_all
  have ap0: "0 \<le> a * p"
    using Cons.prems by simp
  have "CF * (a * p) \<le> CF * (b * q)"
    using ap Cons.prems(2) by (rule mult_left_mono)
  then have hd: "x * (CF * (a * p)) \<le> x * (CF * (b * q))"
    using x by simp
  have tl: "sum_skipna (map2 fmul ds (map (\<lambda>s. CF * s) (cumprod_from (a * p) (replicate (length ds) p))))
       \<le> sum_skipna (map2 fmul ds (map (\<lambda>s. CF * s) (cumprod_from (b * q) (replicate (length ds) q))))"
    using Cons.prems by (intro Cons.IH ap ap0) simp_all
  show ?case
    using hd tl by (simp add: d sum_skipna_Cons fmul_def)
qed

text \<open>
  C10. For a nominal cashflow above zero (its domain), when every discount factor is
  positive and the three survival probabilities satisfy
  \<open>0 < p_Favorable \<le> p_BestEstimate \<le> p_Adverse \<le> 1\<close>, the totals are ordered:
  Favorable total \<open>\<le>\<close> BestEstimate total \<open>\<le>\<close> Adverse total.
\<close>

theorem total_pv_ordering:
  assumes "valuate vdf CF annual_qx base_mortality_shock = Inr v"
    and "Survivorship_Worst annual_qx base_mortality_shock = Inr p_worst"
    and "\<forall>d\<in>set vdf. \<exists>x. d = Some x \<and> 0 < x"
    and "0 < Survivorship_Best annual_qx base_mortality_shock"
    and "Survivorship_Best annual_qx base_mortality_shock \<le> Survivorship annual_qx"
    and "Survivorship annual_qx \<le> p_worst"
    and "p_worst \<le> 1"
    and "0 < CF"
  shows "total_PV_Best v \<le> total_PV v \<and> total_PV v \<le> total_PV_Worst v"
proof -
  have cf: "0 \<le> CF"
    using assms(8) by simp
  have "total_PV_Best v \<le> total_PV v"
    unfolding valuate_columns(4,5) [OF assms(1)] valuate_columns(1,2) [OF assms(1)] cumprod_def
    using assms(3,4,5) cf by (intro total_mono) simp_all
  moreover have "total_PV v \<le> total_PV_Worst v"
    unfolding valuate_columns(4,6) [OF assms(1)] valuate_columns(1) [OF assms(1)]
      valuate_columns(3) [OF assms(1,2)] cumprod_def
    using assms(3,4,5,6) cf by (intro total_mono) simp_all
  ultimately show ?thesis ..
qed

theorem total_pv_ordering_witness:
  "\<exists>v. valuate [Some 1, Some (9/10), Some (4/5)] 100000 (3/100) (1/2) = Inr v
     \<and> Survivorship_Worst (3/100) (1/2) = Inr (599/600)
     \<and> 0 < Survivorship_Best (3/100) (1/2)
     \<and> Survivorship_Best (3/100) (1/2) \<le> Survivorship (3/100)
     \<and> Survivorship (3/100) \<le> 599/600 \<and> (599/600::real) \<le> 1 \<and> (0::real) < 100000
     \<and> length (PV v) = 3
     \<and> total_PV_Best v \<le> total_PV v \<and> total_PV v \<le> total_PV_Worst v"
proof -
  obtain v where v: "valuate [Some 1, Some (9/10), Some (4/5)] 100000 (3/100) (1/2) = Inr v"
    using valuate_Inr [of "1/2"] by fastforce
  have h: "Survivorship_Worst (3/100) (1/2) = Inr (599/600)"
    "\<forall>d\<in>set [Some (1::real), Some (9/10), Some (4/5)]. \<exists>x. d = Some x \<and> 0 < x"
    "0 < Survivorship_Best (3/100) (1/2)"
    "Survivorship_Best (3/100) (1/2) \<le> Survivorship (3/100)"
    "Survivorship (3/100) \<le> 599/600" "(599/600::real) \<le> 1" "(0::real) < 100000"
    by (auto simp: Survivorship_Worst_def Survivorship_Best_def Survivorship_def monthly_qx_def
        intro: exI [of _ "9/10"] exI [of _ "4/5"])
  have l: "length (PV v) = 3"
    using valuate_length_PV [OF v] by simp
  from total_pv_ordering [OF v h] v h(1,3-7) l show ?thesis
    by blast
qed

text \<open>
  C5 (amended). The valuation checks none of its parameters. Whatever the nominal
  cashflow and the annual decrement rate are, and for every shock other than -1, it
  returns the present values of every row; a shock of -1 is the only input that stops it
  (with the \<^verbatim>\<open>ZeroDivisionError\<close> of the Adverse probability).
\<close>

theorem valuate_no_domain_check:
  assumes "1 + base_mortality_shock \<noteq> 0"
  shows "(\<exists>v. valuate vdf CF annual_qx base_mortality_shock = Inr v
     \<and> length (PV v) = length vdf \<and> length (PV_Best v) = length vdf
     \<and> length (PV_Worst v) = length vdf)
     \<and> valuate vdf CF annual_qx (- 1) = Inl ZeroDivisionError"
  using assms
  by (simp add: valuate_def Survivorship_Worst_def Let_def length_cumprod_replicate)

theorem valuate_no_domain_check_witness:
  "1 + (1/2::real) \<noteq> 0
   \<and> (\<exists>v. valuate [Some 1] (- 100000) 24 (1/2) = Inr v
     \<and> length (PV v) = length [Some (1::real)] \<and> length (PV_Best v) = length [Some (1::real)]
     \<and> length (PV_Worst v) = length [Some (1::real)])
   \<and> valuate [Some 1] (- 100000) 24 (- 1) = Inl ZeroDivisionError"
proof -
  have h: "1 + (1/2::real) \<noteq> 0" by simp
  from valuate_no_domain_check [OF h, of "[Some 1]" "- 100000" 24] h show ?thesis
    by blast
qed

text \<open>
  A negative cashflow, an annual decrement rate of 24 and a shock of one half, for which
  \<open>monthly_qx * (1 + shock) = 3\<close>: nothing is rejected, and the Favorable survival
  probability is -2.
\<close>

theorem valuate_no_domain_check_counterexample:
  "monthly_qx 24 * (1 + 1/2) > 1
   \<and> Survivorship_Best 24 (1/2) = - 2
   \<and> \<not> isl (valuate [Some 1] (- 100000) 24 (1/2))
   \<and> Cumulative_Survivorship_Best (projr (valuate [Some 1] (- 100000) 24 (1/2))) = [- 2]
   \<and> PV_Best (projr (valuate [Some 1] (- 100000) 24 (1/2))) = [Some 200000]"
  by (simp add: valuate_def Survivorship_Worst_def Survivorship_Best_def Survivorship_def
      monthly_qx_def cumprod_def fmul_def Let_def)

section \<open>Properties of the curve construction\<close>

lemma length_Maturities: "Maturities ts = Inr ms \<Longrightarrow> length ms = length ts"
  by (induction ts arbitrary: ms) (auto split: sum.splits)

lemma merge_row_nonempty: "merge_row right l \<noteq> []"
  by (simp add: merge_row_def Let_def)

lemma merge_row_keys:
  "row \<in> set (merge_row right l) \<Longrightarrow> m_Months row = fst l \<and> m_Year row = snd l"
  by (auto simp: merge_row_def Let_def split: if_splits)

lemma merge_left_keys:
  "row \<in> set (merge_left left right) \<Longrightarrow> (m_Months row, m_Year row) \<in> set left"
  by (auto simp: merge_left_def dest: merge_row_keys)

lemma merge_left_covers:
  assumes "l \<in> set left"
  shows "\<exists>row\<in>set (merge_left left right). m_Months row = fst l \<and> m_Year row = snd l"
proof -
  obtain row where "row \<in> set (merge_row right l)"
    using merge_row_nonempty [of right l] by (cases "merge_row right l") auto
  with assms show ?thesis
    by (auto simp: merge_left_def dest: merge_row_keys)
qed

lemma df_rows: "(m, y) \<in> set df \<longleftrightarrow> 1 \<le> m \<and> m \<le> 360 \<and> y = real m / 12"
  by (auto simp: df_def)

lemma y_interp_length: "y_interp x y qs = Inr ri \<Longrightarrow> length ri = length qs"
  by (auto simp: y_interp_def Let_def split: if_splits)

lemma build_curve_Inr:
  assumes "build_curve tc = Inr rows"
  obtains mats merged ri where
    "Maturities (map fst tc) = Inr mats"
    "merged = merge_left df (zip (map snd tc) mats)"
    "y_interp (ffill None (map m_Maturities merged)) (ffill None (map m_Rate merged))
        (map m_Year merged) = Inr ri"
    "length ri = length merged"
    "rows = map2 (\<lambda>row r. \<lparr> Months = m_Months row, Year = m_Year row, Rate_Interpolated = r,
                             VDF = VDF_cell r (m_Year row) \<rparr>) merged ri"
proof -
  from assms obtain mats where m: "Maturities (map fst tc) = Inr mats"
    by (auto simp: build_curve_def split: sum.splits)
  define merged where "merged = merge_left df (zip (map snd tc) mats)"
  from assms m obtain ri where
    ri: "y_interp (ffill None (map m_Maturities merged)) (ffill None (map m_Rate merged))
        (map m_Year merged) = Inr ri"
    and rows: "rows = map2 (\<lambda>row r. \<lparr> Months = m_Months row, Year = m_Year row,
        Rate_Interpolated = r, VDF = VDF_cell r (m_Year row) \<rparr>) merged ri"
    by (auto simp: build_curve_def Let_def merged_def split: sum.splits)
  from y_interp_length [OF ri] have "length ri = length merged" by simp
  with m merged_def ri rows that show thesis by blast
qed

lemma build_curve_row:
  assumes "build_curve tc = Inr rows" and "row \<in> set rows"
  shows "VDF row = VDF_cell (Rate_Interpolated row) (Year row)"
    and "Year row = real (Months row) / 12"
    and "1 \<le> Months row" and "Months row \<le> 360"
proof -
  from assms(1) obtain mats merged ri where
    merged: "merged = merge_left df (zip (map snd tc) mats)"
    and len: "length ri = length merged"
    and rows: "rows = map2 (\<lambda>row r. \<lparr> Months = m_Months row, Year = m_Year row,
        Rate_Interpolated = r, VDF = VDF_cell r (m_Year row) \<rparr>) merged ri"
    by (rule build_curve_Inr)
  from assms(2) rows obtain mrow r where
    mrow: "(mrow, r) \<in> set (zip merged ri)"
    and row: "row = \<lparr> Months = m_Months mrow, Year = m_Year mrow, Rate_Interpolated = r,
        VDF = VDF_cell r (m_Year mrow) \<rparr>"
    by auto
  from mrow have "mrow \<in> set merged" by (rule set_zip_leftD)
  then have "(m_Months mrow, m_Year mrow) \<in> set df"
    unfolding merged by (rule merge_left_keys)
  then have k: "1 \<le> m_Months mrow" "m_Months mrow \<le> 360" "m_Year mrow = real (m_Months mrow) / 12"
    by (simp_all only: df_rows)
  show "VDF row = VDF_cell (Rate_Interpolated row) (Year row)"
    by (simp add: row)
  show "Year row = real (Months row) / 12"
    using k(3) by (simp only: row curve_entry.simps)
  show "1 \<le> Months row" "Months row \<le> 360"
    using k(1,2) by (simp_all only: row curve_entry.simps)
qed

lemma build_curve_months:
  assumes "build_curve tc = Inr rows" and "1 \<le> m" and "m \<le> 360"
  shows "\<exists>row\<in>set rows. Months row = m"
proof -
  from assms(1) obtain mats merged ri where
    merged: "merged = merge_left df (zip (map snd tc) mats)"
    and len: "length ri = length merged"
    and rows: "rows = map2 (\<lambda>row r. \<lparr> Months = m_Months row, Year = m_Year row,
        Rate_Interpolated = r, VDF = VDF_cell r (m_Year row) \<rparr>) merged ri"
    by (rule build_curve_Inr)
  have "(m, real m / 12) \<in> set df"
    using assms(2,3) by (simp only: df_rows)
  from merge_left_covers [OF this, of "zip (map snd tc) mats"]
  obtain mrow where mrow: "mrow \<in> set merged" and m: "m_Months mrow = m"
    unfolding merged by auto
  from mrow obtain i where i: "i < length merged" and nth: "merged ! i = mrow"
    by (auto simp: in_set_conv_nth)
  have l: "i < length rows"
    using i len by (simp add: rows)
  have "Months (rows ! i) = m"
    using i len nth m by (simp add: rows)
  with nth_mem [OF l] show ?thesis by blast
qed

text \<open>
  C1. When the curve construction returns, every month from 1 to 360 has a row, and in
  every row of month \<open>m\<close> the year fraction is \<open>m / 12\<close> and the discount factor is
  exactly \<open>(1 + r / 100)\<close> to the power \<open>- (m / 12)\<close>, where \<open>r\<close> is the interpolated rate
  of that row (a number, with a base \<open>1 + r / 100\<close> above zero).
\<close>

theorem discount_factor_formula:
  assumes "build_curve treasury_curve_final = Inr rows" and "1 \<le> m" and "m \<le> 360"
  shows "(\<exists>row\<in>set rows. Months row = m)
       \<and> (\<forall>row\<in>set rows. Months row = m \<longrightarrow>
            Year row = real m / 12
          \<and> (\<forall>r. Rate_Interpolated row = Some r \<and> 0 < 1 + r / 100 \<longrightarrow>
                 VDF row = Some ((1 + r / 100) powr (- (real m / 12)))))"
proof -
  have "Year row = real m / 12
      \<and> (\<forall>r. Rate_Interpolated row = Some r \<and> 0 < 1 + r / 100 \<longrightarrow>
             VDF row = Some ((1 + r / 100) powr (- (real m / 12))))"
    if row: "row \<in> set rows" and m: "Months row = m" for row
  proof -
    have y: "Year row = real m / 12"
      using build_curve_row(2) [OF assms(1) row] by (simp only: m)
    have "VDF row = VDF_cell (Rate_Interpolated row) (real m / 12)"
      using build_curve_row(1) [OF assms(1) row] by (simp only: y)
    then have "VDF row = Some ((1 + r / 100) powr (- (real m / 12)))"
      if "Rate_Interpolated row = Some r" "0 < 1 + r / 100" for r
      using that by (simp add: VDF_cell_def)
    with y show ?thesis by blast
  qed
  with build_curve_months [OF assms] show ?thesis by blast
qed

text \<open>
  The discount factors in exact arithmetic (the subject of C9). When the curve
  construction returns, the discount factor of a month is strictly below the discount
  factor of the month before, as soon as the interpolated rates of the two months are
  positive and the later one is the larger. This is a statement about the real numbers
  only: in float64 the base \<^verbatim>\<open>1 + r/100\<close> rounds to \<^verbatim>\<open>1.0\<close> for rates near
  \<^verbatim>\<open>1e-16\<close>, and then every discount factor of the program is \<^verbatim>\<open>1.0\<close>.
\<close>

lemma discount_factors_decrease:
  assumes "build_curve treasury_curve_final = Inr rows"
    and "row1 \<in> set rows" and "row2 \<in> set rows"
    and "Months row2 = Months row1 + 1"
    and "Rate_Interpolated row1 = Some r1" and "Rate_Interpolated row2 = Some r2"
    and "0 < r1" and "r1 < r2"
  shows "\<exists>d1 d2. VDF row1 = Some d1 \<and> VDF row2 = Some d2 \<and> d2 < d1"
proof -
  let ?m = "Months row1"
  have b1: "1 < 1 + r1 / 100" and b2: "1 + r1 / 100 < 1 + r2 / 100"
    using assms(7,8) by simp_all
  have y1: "Year row1 = real ?m / 12"
    by (rule build_curve_row(2) [OF assms(1,2)])
  have y2: "Year row2 = real (?m + 1) / 12"
    using build_curve_row(2) [OF assms(1,3)] by (simp only: assms(4))
  have "VDF row1 = VDF_cell (Some r1) (real ?m / 12)"
    using build_curve_row(1) [OF assms(1,2)] by (simp only: y1 assms(5))
  then have d1: "VDF row1 = Some ((1 + r1 / 100) powr (- (real ?m / 12)))"
    using b1 by (simp add: VDF_cell_def)
  have "VDF row2 = VDF_cell (Some r2) (real (?m + 1) / 12)"
    using build_curve_row(1) [OF assms(1,3)] by (simp only: y2 assms(6))
  then have d2: "VDF row2 = Some ((1 + r2 / 100) powr (- (real (?m + 1) / 12)))"
    using b1 b2 by (simp add: VDF_cell_def)
  have "(1 + r2 / 100) powr (- (real (?m + 1) / 12)) < (1 + r1 / 100) powr (- (real (?m + 1) / 12))"
    using b1 b2 by (intro powr_less_mono2_neg) simp_all
  also have "\<dots> < (1 + r1 / 100) powr (- (real ?m / 12))"
    using b1 by (intro powr_less_mono) simp_all
  finally show ?thesis
    using d1 d2 by simp
qed

subsection \<open>Forward fill\<close>

lemma length_ffill: "length (ffill c xs) = length xs"
  by (induction c xs rule: ffill.induct) simp_all

lemma set_ffill_subset: "set (ffill c xs) \<subseteq> insert c (set xs)"
  by (induction c xs rule: ffill.induct) auto

lemma Some_in_ffill: "Some v \<in> set xs \<Longrightarrow> Some v \<in> set (ffill c xs)"
  by (induction c xs rule: ffill.induct) auto

lemma ffill_Some_carry: "None \<notin> set (ffill (Some v) xs)"
  by (induction "Some v" xs arbitrary: v rule: ffill.induct) auto

lemma ffill_nth:
  "i < length xs \<Longrightarrow>
   ffill c xs ! i =
     (case xs ! i of Some v \<Rightarrow> Some v
      | None \<Rightarrow> if i = 0 then c else ffill c xs ! (i - 1))"
proof (induction c xs arbitrary: i rule: ffill.induct)
  case (1 carry)
  then show ?case by simp
next
  case (2 carry xs)
  show ?case
  proof (cases i)
    case 0
    then show ?thesis by simp
  next
    case (Suc j)
    with "2.prems" have "j < length xs" by simp
    from "2.IH" [OF this] Suc show ?thesis
      by (cases j) (simp_all split: option.splits)
  qed
next
  case (3 carry v xs)
  show ?case
  proof (cases i)
    case 0
    then show ?thesis by simp
  next
    case (Suc j)
    with "3.prems" have "j < length xs" by simp
    from "3.IH" [OF this] Suc show ?thesis
      by (cases j) (simp_all split: option.splits)
  qed
qed

subsection \<open>The sorted points\<close>

lemma nan_last_le_iff [simp]:
  "nan_last (Some u) \<le> nan_last (Some v) \<longleftrightarrow> u \<le> v"
  "nan_last (Some u) \<le> nan_last None"
  "\<not> nan_last None \<le> nan_last (Some v)"
  by (simp_all add: nan_last_def less_eq_prod_def)

lemma hd_sort_key_le:
  assumes "x \<in> set xs"
  shows "f (hd (sort_key f xs)) \<le> f x"
proof -
  from assms have x: "x \<in> set (sort_key f xs)" by simp
  have s: "sorted (map f (sort_key f xs))" by (rule sorted_sort_key)
  show ?thesis
  proof (cases "sort_key f xs")
    case Nil
    with x show ?thesis by simp
  next
    case (Cons y ys)
    with x s show ?thesis by auto
  qed
qed

lemma last_sort_key_ge:
  assumes "x \<in> set xs"
  shows "f x \<le> f (last (sort_key f xs))"
proof -
  from assms have x: "x \<in> set (sort_key f xs)" by simp
  have s: "sorted (map f (sort_key f xs))" by (rule sorted_sort_key)
  from assms have "xs \<noteq> []" by auto
  then have ne: "sort_key f xs \<noteq> []"
    by (metis length_0_conv length_sort)
  then have "sort_key f xs = butlast (sort_key f xs) @ [last (sort_key f xs)]"
    by simp
  then obtain ys where ys: "sort_key f xs = ys @ [last (sort_key f xs)]" ..
  from s have "sorted (map f (ys @ [last (sort_key f xs)]))"
    using ys by simp
  then have "\<forall>y\<in>set ys. f y \<le> f (last (sort_key f xs))"
    by (simp add: sorted_append)
  moreover from x ys have "x \<in> set ys \<or> x = last (sort_key f xs)"
    by (metis Un_iff empty_iff empty_set insert_iff list.simps(15) set_append)
  ultimately show ?thesis by auto
qed

lemma hd_sort_key_mem: "xs \<noteq> [] \<Longrightarrow> hd (sort_key f xs) \<in> set xs"
  by (metis hd_in_set length_0_conv length_sort set_sort)

lemma last_sort_key_mem: "xs \<noteq> [] \<Longrightarrow> last (sort_key f xs) \<in> set xs"
  by (metis last_in_set length_0_conv length_sort set_sort)

subsection \<open>The walk of the interpolation\<close>

lemma np_interp_walk_segment:
  assumes "\<forall>p\<in>set us. flt_le (fst p) (Some q)"
    and "flt_le (fst p0) (Some q)" and "\<not> flt_le (fst p1) (Some q)"
  shows "np_interp_walk (us @ p0 # p1 # vs) q =
     (if fst p0 = Some q then snd p0 else lin_segment (fst p0) (snd p0) (fst p1) (snd p1) q)"
  using assms
proof (induction us)
  case Nil
  then show ?case by simp
next
  case (Cons u us)
  then show ?case
    by (cases us) simp_all
qed

lemma np_interp_walk_end:
  assumes "\<forall>p\<in>set us. flt_le (fst p) (Some q)"
    and "flt_le (fst p0) (Some q)"
  shows "np_interp_walk (us @ [p0]) q = snd p0"
  using assms
proof (induction us)
  case Nil
  then show ?case by simp
next
  case (Cons u us)
  then show ?case
    by (cases us) simp_all
qed


subsection \<open>The bounds check\<close>

lemma interp1d_nonempty: "length x = length y \<Longrightarrow> x \<noteq> [] \<Longrightarrow> interp1d x y \<noteq> []"
  by (metis interp1d_def length_0_conv length_sort length_zip min.idem)

lemma hd_interp1d:
  assumes "length x = length y" and "x \<noteq> []"
  shows "fst (hd (interp1d x y)) \<in> set x"
proof -
  from assms have "zip x y \<noteq> []" by (cases x; cases y) simp_all
  then have "hd (interp1d x y) \<in> set (zip x y)"
    unfolding interp1d_def by (rule hd_sort_key_mem)
  then show ?thesis
    by (metis prod.collapse set_zip_leftD)
qed

lemma last_interp1d:
  assumes "length x = length y" and "x \<noteq> []"
  shows "fst (last (interp1d x y)) \<in> set x"
proof -
  from assms have "zip x y \<noteq> []" by (cases x; cases y) simp_all
  then have "last (interp1d x y) \<in> set (zip x y)"
    unfolding interp1d_def by (rule last_sort_key_mem)
  then show ?thesis
    by (metis prod.collapse set_zip_leftD)
qed

lemma hd_interp1d_Some:
  assumes "length x = length y" and "Some v \<in> set x"
  shows "\<exists>u. fst (hd (interp1d x y)) = Some u \<and> Some u \<in> set x"
proof -
  from assms obtain w where w: "(Some v, w) \<in> set (zip x y)"
    using in_set_impl_in_set_zip1 by metis
  have "nan_last (fst (hd (interp1d x y))) \<le> nan_last (fst (Some v, w))"
    unfolding interp1d_def by (rule hd_sort_key_le [OF w])
  then have "fst (hd (interp1d x y)) \<noteq> None"
    by (cases "fst (hd (interp1d x y))") simp_all
  moreover have "fst (hd (interp1d x y)) \<in> set x"
    using assms by (intro hd_interp1d) auto
  ultimately show ?thesis by auto
qed

lemma y_interp_below_error:
  assumes "length x = length y" and "Some v \<in> set x" and "q \<in> set qs"
    and "\<forall>u. Some u \<in> set x \<longrightarrow> q < u"
  shows "y_interp x y qs = Inl ValueError"
proof -
  from hd_interp1d_Some [OF assms(1,2)] obtain u where
    u: "fst (hd (interp1d x y)) = Some u" and "Some u \<in> set x" by blast
  with assms(4) have "q < u" by blast
  then have "flt_less (Some q) (fst (hd (interp1d x y)))"
    by (simp add: u flt_less_def)
  with assms(3) have "\<exists>q\<in>set qs. flt_less (Some q) (fst (hd (interp1d x y)))" by blast
  then show ?thesis
    by (simp add: y_interp_def Let_def)
qed

lemma y_interp_above_error:
  assumes "length x = length y" and "x \<noteq> []" and "None \<notin> set x" and "q \<in> set qs"
    and "\<forall>u. Some u \<in> set x \<longrightarrow> u < q"
  shows "y_interp x y qs = Inl ValueError"
proof -
  have "fst (last (interp1d x y)) \<in> set x"
    by (rule last_interp1d [OF assms(1,2)])
  with assms(3) obtain u where
    u: "fst (last (interp1d x y)) = Some u" and "Some u \<in> set x"
    by (cases "fst (last (interp1d x y))") auto
  with assms(5) have "u < q" by blast
  then have "flt_less (fst (last (interp1d x y))) (Some q)"
    by (simp add: u flt_less_def)
  with assms(4) have "\<exists>q\<in>set qs. flt_less (fst (last (interp1d x y))) (Some q)" by blast
  then show ?thesis
    by (simp add: y_interp_def Let_def)
qed

subsection \<open>The merged frame\<close>

lemma merge_row_Maturities:
  assumes "row \<in> set (merge_row right l)" and "m_Maturities row = Some v"
  shows "v = snd l \<and> v \<in> snd ` set right"
proof -
  let ?hits = "filter (\<lambda>r. snd r = snd l) right"
  from assms have "?hits \<noteq> []"
    by (auto simp: merge_row_def Let_def split: if_splits)
  with assms(1) obtain r where r: "r \<in> set ?hits" and row: "m_Maturities row = Some (snd r)"
    by (auto simp: merge_row_def Let_def)
  from r have "snd r = snd l" "r \<in> set right" by simp_all
  with row assms(2) show ?thesis by force
qed

lemma merge_row_hit:
  assumes "snd l \<in> snd ` set right" and "row \<in> set (merge_row right l)"
  shows "m_Maturities row = Some (snd l)"
proof -
  from assms(1) have "filter (\<lambda>r. snd r = snd l) right \<noteq> []"
    by (force simp: filter_empty_conv)
  with assms(2) show ?thesis
    by (auto simp: merge_row_def Let_def)
qed

lemma merged_Maturities_Some:
  assumes "Some v \<in> set (map m_Maturities (merge_left df right))"
  shows "\<exists>m. 1 \<le> m \<and> m \<le> 360 \<and> v = real m / 12 \<and> v \<in> snd ` set right"
proof -
  from assms obtain row l where l: "l \<in> set df" and row: "row \<in> set (merge_row right l)"
    and v: "m_Maturities row = Some v"
    by (auto simp: merge_left_def)
  from merge_row_Maturities [OF row v] have "v = snd l" "v \<in> snd ` set right" by blast+
  moreover from l have "(fst l, snd l) \<in> set df" by simp
  then have "1 \<le> fst l \<and> fst l \<le> 360 \<and> snd l = real (fst l) / 12"
    by (simp only: df_rows)
  ultimately show ?thesis by blast
qed

lemma merged_Maturities_hit:
  assumes "1 \<le> m" and "m \<le> 360" and "real m / 12 \<in> snd ` set right"
  shows "Some (real m / 12) \<in> set (map m_Maturities (merge_left df right))"
proof -
  have l: "(m, real m / 12) \<in> set df"
    using assms(1,2) by (simp only: df_rows)
  obtain row where row: "row \<in> set (merge_row right (m, real m / 12))"
    using merge_row_nonempty [of right "(m, real m / 12)"]
    by (cases "merge_row right (m, real m / 12)") auto
  from merge_row_hit [OF _ row] assms(3) have "m_Maturities row = Some (real m / 12)"
    by simp
  moreover from l row have "row \<in> set (merge_left df right)"
    by (auto simp: merge_left_def)
  ultimately show ?thesis by force
qed

lemma merged_Year_covers:
  assumes "1 \<le> m" and "m \<le> 360"
  shows "real m / 12 \<in> set (map m_Year (merge_left df right))"
proof -
  have "(m, real m / 12) \<in> set df"
    using assms by (simp only: df_rows)
  from merge_left_covers [OF this, of right] show ?thesis by force
qed

lemma df_Cons: "\<exists>rest. df = (Suc 0, 1 / 12) # rest"
  by (simp add: df_def upt_conv_Cons)

lemma merged_first_hit:
  assumes "1 / 12 \<in> snd ` set right"
  shows "\<exists>rest. map m_Maturities (merge_left df right) = Some (1 / 12) # rest"
proof -
  obtain row rows where rows: "merge_row right (Suc 0, 1 / 12) = row # rows"
    using merge_row_nonempty [of right "(Suc 0, 1 / 12)"]
    by (cases "merge_row right (Suc 0, 1 / 12)") auto
  then have "row \<in> set (merge_row right (Suc 0, 1 / 12))" by simp
  from merge_row_hit [OF _ this] assms have row: "m_Maturities row = Some (1 / 12)" by simp
  obtain rest where df: "df = (Suc 0, 1 / 12) # rest"
    using df_Cons by blast
  have "merge_left df right = (row # rows) @ concat (map (merge_row right) rest)"
    unfolding merge_left_def df by (simp only: list.map concat.simps rows)
  then have "map m_Maturities (merge_left df right) =
      Some (1 / 12) # map m_Maturities (rows @ concat (map (merge_row right) rest))"
    by (simp add: row)
  then show ?thesis ..
qed

lemma snd_set_zip: "length xs = length ys \<Longrightarrow> snd ` set (zip xs ys) = set ys"
  by (metis map_snd_zip set_map)

lemma build_curve_below_error:
  assumes mats: "Maturities (map fst tc) = Inr mats"
    and first: "1 / 12 \<notin> set mats"
    and k: "1 \<le> k" "k \<le> 360" "real k / 12 \<in> set mats"
  shows "build_curve tc = Inl ValueError"
proof -
  let ?right = "zip (map snd tc) mats"
  let ?merged = "merge_left df ?right"
  let ?x = "ffill None (map m_Maturities ?merged)"
  let ?y = "ffill None (map m_Rate ?merged)"
  have r: "snd ` set ?right = set mats"
    using length_Maturities [OF mats] by (intro snd_set_zip) simp
  have "Some (real k / 12) \<in> set (map m_Maturities ?merged)"
    using k by (intro merged_Maturities_hit) (simp_all only: r)
  then have hit: "Some (real k / 12) \<in> set ?x"
    by (rule Some_in_ffill)
  have q: "1 / 12 \<in> set (map m_Year ?merged)"
    using merged_Year_covers [of 1 ?right] by simp
  have above: "\<forall>u. Some u \<in> set ?x \<longrightarrow> 1 / 12 < u"
  proof (intro allI impI)
    fix u
    assume that: "Some u \<in> set ?x"
    from that set_ffill_subset [of None "map m_Maturities ?merged"]
    have "Some u \<in> set (map m_Maturities ?merged)" by auto
    from merged_Maturities_Some [OF this] obtain m where
      m: "1 \<le> m" "u = real m / 12" "u \<in> set mats"
      unfolding r by blast
    have "m \<noteq> 1"
    proof
      assume "m = 1"
      with m(2) have "u = 1 / 12" by simp
      with m(3) first show False by simp
    qed
    with m(1) have "1 < m" by simp
    then show "1 / 12 < u" by (simp add: m(2))
  qed
  have len: "length ?x = length ?y"
    by (simp add: length_ffill)
  have "y_interp ?x ?y (map m_Year ?merged) = Inl ValueError"
    by (rule y_interp_below_error [OF len hit q above])
  then show ?thesis
    by (simp add: build_curve_def mats Let_def)
qed

lemma build_curve_above_error:
  assumes mats: "Maturities (map fst tc) = Inr mats"
    and first: "1 / 12 \<in> set mats"
    and last: "30 \<notin> set mats"
  shows "build_curve tc = Inl ValueError"
proof -
  let ?right = "zip (map snd tc) mats"
  let ?merged = "merge_left df ?right"
  let ?x = "ffill None (map m_Maturities ?merged)"
  let ?y = "ffill None (map m_Rate ?merged)"
  have r: "snd ` set ?right = set mats"
    using length_Maturities [OF mats] by (intro snd_set_zip) simp
  have "1 / 12 \<in> snd ` set ?right"
    using first by (simp only: r)
  from merged_first_hit [OF this] obtain rest where
    "map m_Maturities ?merged = Some (1 / 12) # rest"
    by auto
  then have x: "?x = Some (1 / 12) # ffill (Some (1 / 12)) rest"
    by simp
  have nonan: "None \<notin> set ?x"
    unfolding x using ffill_Some_carry [of "1 / 12" rest] by simp
  have ne: "?x \<noteq> []"
    unfolding x by simp
  have q: "30 \<in> set (map m_Year ?merged)"
    using merged_Year_covers [of 360 ?right] by simp
  have below: "\<forall>u. Some u \<in> set ?x \<longrightarrow> u < 30"
  proof (intro allI impI)
    fix u
    assume that: "Some u \<in> set ?x"
    from that set_ffill_subset [of None "map m_Maturities ?merged"]
    have "Some u \<in> set (map m_Maturities ?merged)" by auto
    from merged_Maturities_Some [OF this] obtain m where
      m: "m \<le> 360" "u = real m / 12" "u \<in> set mats"
      unfolding r by blast
    have "m \<noteq> 360"
    proof
      assume "m = 360"
      with m(2) have "u = 30" by simp
      with m(3) last show False by simp
    qed
    with m(1) have "m < 360" by simp
    then show "u < 30" by (simp add: m(2))
  qed
  have len: "length ?x = length ?y"
    by (simp add: length_ffill)
  have "y_interp ?x ?y (map m_Year ?merged) = Inl ValueError"
    by (rule y_interp_above_error [OF len ne nonan q below])
  then show ?thesis
    by (simp add: build_curve_def mats Let_def)
qed

subsection \<open>A curve with distinct maturities\<close>

lemma filter_distinct_hit:
  "distinct (map snd ps) \<Longrightarrow> p \<in> set ps \<Longrightarrow> filter (\<lambda>r. snd r = snd p) ps = [p]"
proof (induction ps)
  case Nil
  then show ?case by simp
next
  case (Cons a ps)
  show ?case
  proof (cases "a = p")
    case True
    from Cons.prems(1) have "snd a \<notin> snd ` set ps" by simp
    then have "\<forall>r\<in>set ps. snd r \<noteq> snd a" by (metis imageI)
    then have "filter (\<lambda>r. snd r = snd a) ps = []"
      by (simp add: filter_empty_conv)
    with True show ?thesis by simp
  next
    case False
    with Cons.prems have p: "p \<in> set ps" by simp
    from Cons.prems(1) have "snd a \<notin> snd ` set ps" by simp
    with p have "snd a \<noteq> snd p" by (metis imageI)
    with Cons.IH [OF _ p] Cons.prems(1) show ?thesis by simp
  qed
qed

lemma merge_row_miss:
  "snd l \<notin> snd ` set right \<Longrightarrow>
   merge_row right l = [\<lparr> m_Months = fst l, m_Year = snd l, m_Rate = None, m_Maturities = None \<rparr>]"
  by (force simp: merge_row_def Let_def filter_empty_conv)

lemma merge_row_distinct_hit:
  assumes "distinct (map snd right)" and "(r, snd l) \<in> set right"
  shows "merge_row right l =
     [\<lparr> m_Months = fst l, m_Year = snd l, m_Rate = r, m_Maturities = Some (snd l) \<rparr>]"
  using filter_distinct_hit [OF assms] by (simp add: merge_row_def Let_def)

lemma merge_row_distinct_length:
  assumes "distinct (map snd right)"
  shows "length (merge_row right l) = 1"
proof (cases "snd l \<in> snd ` set right")
  case True
  then obtain r where "(r, snd l) \<in> set right" by force
  from merge_row_distinct_hit [OF assms this] show ?thesis by simp
next
  case False
  from merge_row_miss [OF this] show ?thesis by simp
qed

lemma concat_map_singletons:
  "(\<forall>x\<in>set xs. length (g x) = 1) \<Longrightarrow> concat (map g xs) = map (\<lambda>x. hd (g x)) xs"
proof (induction xs)
  case Nil
  then show ?case by simp
next
  case (Cons x xs)
  then have "length (g x) = 1" by simp
  then obtain y where "g x = [y]"
    by (cases "g x") simp_all
  with Cons show ?case by simp
qed

lemma length_df: "length df = 360"
  by (simp add: df_def)

lemma df_nth: "k < 360 \<Longrightarrow> df ! k = (Suc k, real (Suc k) / 12)"
  by (simp add: df_def del: of_nat_Suc)

lemma merge_left_distinct:
  assumes "distinct (map snd right)"
  shows "merge_left df right = map (\<lambda>l. hd (merge_row right l)) df"
  unfolding merge_left_def
  by (rule concat_map_singletons) (simp add: merge_row_distinct_length [OF assms])

lemma merged_length:
  "distinct (map snd right) \<Longrightarrow> length (merge_left df right) = 360"
  by (simp add: merge_left_distinct length_df)

lemma merged_nth_miss:
  assumes "distinct (map snd right)" and "k < 360" and "real (Suc k) / 12 \<notin> snd ` set right"
  shows "merge_left df right ! k =
     \<lparr> m_Months = Suc k, m_Year = real (Suc k) / 12, m_Rate = None, m_Maturities = None \<rparr>"
proof -
  have "merge_left df right ! k = hd (merge_row right (Suc k, real (Suc k) / 12))"
    using assms(2) by (simp add: merge_left_distinct [OF assms(1)] length_df df_nth del: of_nat_Suc)
  also have "\<dots> = \<lparr> m_Months = Suc k, m_Year = real (Suc k) / 12, m_Rate = None,
      m_Maturities = None \<rparr>"
    using merge_row_miss [of "(Suc k, real (Suc k) / 12)" right] assms(3)
    by (simp del: of_nat_Suc)
  finally show ?thesis .
qed

lemma merged_nth_hit:
  assumes "distinct (map snd right)" and "k < 360" and "(r, real (Suc k) / 12) \<in> set right"
  shows "merge_left df right ! k =
     \<lparr> m_Months = Suc k, m_Year = real (Suc k) / 12, m_Rate = r,
       m_Maturities = Some (real (Suc k) / 12) \<rparr>"
proof -
  have "merge_left df right ! k = hd (merge_row right (Suc k, real (Suc k) / 12))"
    using assms(2) by (simp add: merge_left_distinct [OF assms(1)] length_df df_nth del: of_nat_Suc)
  also have "\<dots> = \<lparr> m_Months = Suc k, m_Year = real (Suc k) / 12, m_Rate = r,
      m_Maturities = Some (real (Suc k) / 12) \<rparr>"
    using merge_row_distinct_hit [of right r "(Suc k, real (Suc k) / 12)"] assms(1,3)
    by (simp del: of_nat_Suc)
  finally show ?thesis .
qed

lemma merged_nth_keys:
  assumes "distinct (map snd right)" and "k < 360"
  shows "m_Months (merge_left df right ! k) = Suc k"
    and "m_Year (merge_left df right ! k) = real (Suc k) / 12"
proof -
  have "merge_left df right ! k \<in> set (merge_row right (Suc k, real (Suc k) / 12))"
  proof -
    have "merge_left df right ! k = hd (merge_row right (Suc k, real (Suc k) / 12))"
      using assms(2)
      by (simp add: merge_left_distinct [OF assms(1)] length_df df_nth del: of_nat_Suc)
    then show ?thesis
      using merge_row_nonempty [of right "(Suc k, real (Suc k) / 12)"] by simp
  qed
  from merge_row_keys [OF this]
  show "m_Months (merge_left df right ! k) = Suc k"
    and "m_Year (merge_left df right ! k) = real (Suc k) / 12"
    by simp_all
qed

subsection \<open>Forward-filled columns over the monthly grid\<close>

lemma ffill_hold:
  assumes "ka \<le> k" and "k < length xr" and "xr ! ka = Some v"
    and "\<forall>j. ka < j \<and> j \<le> k \<longrightarrow> xr ! j = None"
  shows "ffill c xr ! k = Some v"
  using assms
proof (induction k)
  case 0
  then show ?case by (simp add: ffill_nth)
next
  case (Suc k)
  show ?case
  proof (cases "ka = Suc k")
    case True
    with Suc.prems show ?thesis by (simp add: ffill_nth)
  next
    case False
    with Suc.prems have le: "ka \<le> k" and lt: "k < length xr" by simp_all
    have "ffill c xr ! k = Some v"
      using Suc.prems by (intro Suc.IH le lt) auto
    moreover have "xr ! Suc k = None"
      using Suc.prems False by auto
    ultimately show ?thesis
      using Suc.prems(2) by (simp add: ffill_nth)
  qed
qed

lemma ffill_grid_no_nan:
  assumes "k < length xr" and "xr ! 0 \<noteq> None"
  shows "ffill c xr ! k \<noteq> None"
  using assms
proof (induction k)
  case 0
  then show ?case by (auto simp: ffill_nth)
next
  case (Suc k)
  then have "ffill c xr ! k \<noteq> None" by simp
  with Suc.prems show ?case
    by (auto simp: ffill_nth split: option.splits)
qed

lemma ffill_grid_le:
  assumes "k < length xr" and "ffill None xr ! k = Some v"
    and "\<forall>j<length xr. \<forall>u. xr ! j = Some u \<longrightarrow> u = real (Suc j) / 12"
  shows "v \<le> real (Suc k) / 12"
  using assms(1,2)
proof (induction k)
  case 0
  with assms(3) show ?case
    by (auto simp: ffill_nth split: option.splits)
next
  case (Suc k)
  show ?case
  proof (cases "xr ! Suc k")
    case None
    with Suc.prems have "ffill None xr ! k = Some v"
      by (simp add: ffill_nth)
    with Suc have "v \<le> real (Suc k) / 12" by simp
    then show ?thesis by simp
  next
    case (Some u)
    with Suc.prems have "v = u" by (simp add: ffill_nth)
    with Some assms(3) Suc.prems(1) show ?thesis by auto
  qed
qed

lemma ffill_grid_step:
  assumes "Suc k < length xr" and "ffill None xr ! k = Some u" and "ffill None xr ! Suc k = Some v"
    and "\<forall>j<length xr. \<forall>u. xr ! j = Some u \<longrightarrow> u = real (Suc j) / 12"
  shows "u \<le> v"
proof (cases "xr ! Suc k")
  case None
  with assms(1,2,3) show ?thesis by (simp add: ffill_nth)
next
  case (Some w)
  with assms(1,3) have "v = w" by (simp add: ffill_nth)
  with Some assms(1,4) have v: "v = real (Suc (Suc k)) / 12" by auto
  from assms(1) have "k < length xr" by simp
  from ffill_grid_le [OF this assms(2,4)] have "u \<le> real (Suc k) / 12" .
  with v show ?thesis by simp
qed

lemma ffill_grid_sorted:
  assumes "xr \<noteq> []" and "xr ! 0 \<noteq> None"
    and "\<forall>j<length xr. \<forall>u. xr ! j = Some u \<longrightarrow> u = real (Suc j) / 12"
  shows "sorted (map nan_last (ffill None xr))"
proof -
  have "map nan_last (ffill None xr) ! k \<le> map nan_last (ffill None xr) ! Suc k"
    if k: "Suc k < length xr" for k
  proof -
    from k have k': "k < length xr" by simp
    from ffill_grid_no_nan [OF k' assms(2)] obtain u where u: "ffill None xr ! k = Some u"
      by auto
    from ffill_grid_no_nan [OF k assms(2)] obtain v where v: "ffill None xr ! Suc k = Some v"
      by auto
    from ffill_grid_step [OF k u v assms(3)] show ?thesis
      using k by (simp add: length_ffill u v)
  qed
  then show ?thesis
    by (simp add: sorted_iff_nth_Suc length_ffill)
qed


lemma merged_columns:
  fixes tc :: "(string \<times> float) list" and mats :: "real list"
  defines "merged \<equiv> merge_left df (zip (map snd tc) mats)"
  assumes mats: "Maturities (map fst tc) = Inr mats" and dist: "distinct mats"
  shows "length merged = 360"
    and "\<And>k. k < 360 \<Longrightarrow> m_Months (merged ! k) = Suc k"
    and "\<And>k. k < 360 \<Longrightarrow> m_Year (merged ! k) = real (Suc k) / 12"
    and "\<And>k. k < 360 \<Longrightarrow> real (Suc k) / 12 \<in> set mats \<Longrightarrow>
           m_Maturities (merged ! k) = Some (real (Suc k) / 12)"
    and "\<And>k. k < 360 \<Longrightarrow> real (Suc k) / 12 \<notin> set mats \<Longrightarrow>
           m_Maturities (merged ! k) = None \<and> m_Rate (merged ! k) = None"
    and "\<And>k i. k < 360 \<Longrightarrow> i < length mats \<Longrightarrow> mats ! i = real (Suc k) / 12 \<Longrightarrow>
           m_Rate (merged ! k) = snd (tc ! i)"
proof -
  let ?right = "zip (map snd tc) mats"
  have len: "length (map snd tc) = length mats"
    using length_Maturities [OF mats] by simp
  have sr: "map snd ?right = mats"
    using len by (rule map_snd_zip)
  have d: "distinct (map snd ?right)"
    using dist by (simp only: sr)
  have r: "snd ` set ?right = set mats"
    using len by (rule snd_set_zip)
  show "length merged = 360"
    unfolding merged_def by (rule merged_length [OF d])
  show "m_Months (merged ! k) = Suc k" if "k < 360" for k
    unfolding merged_def by (rule merged_nth_keys(1) [OF d that])
  show "m_Year (merged ! k) = real (Suc k) / 12" if "k < 360" for k
    unfolding merged_def by (rule merged_nth_keys(2) [OF d that])
  show "m_Maturities (merged ! k) = None \<and> m_Rate (merged ! k) = None"
    if "k < 360" "real (Suc k) / 12 \<notin> set mats" for k
  proof -
    from that(2) have "real (Suc k) / 12 \<notin> snd ` set ?right"
      unfolding r .
    from merged_nth_miss [OF d that(1) this] show ?thesis
      unfolding merged_def by simp
  qed
  have hit: "merged ! k = \<lparr> m_Months = Suc k, m_Year = real (Suc k) / 12, m_Rate = snd (tc ! i),
       m_Maturities = Some (real (Suc k) / 12) \<rparr>"
    if "k < 360" "i < length mats" "mats ! i = real (Suc k) / 12" for k i
  proof -
    have "?right ! i \<in> set ?right"
      using that(2) len by (intro nth_mem) simp
    moreover have "?right ! i = (snd (tc ! i), real (Suc k) / 12)"
      using that(2,3) len by simp
    ultimately have "(snd (tc ! i), real (Suc k) / 12) \<in> set ?right"
      by simp
    from merged_nth_hit [OF d that(1) this] show ?thesis
      unfolding merged_def .
  qed
  show "m_Rate (merged ! k) = snd (tc ! i)"
    if "k < 360" "i < length mats" "mats ! i = real (Suc k) / 12" for k i
    using hit [OF that] by simp
  show "m_Maturities (merged ! k) = Some (real (Suc k) / 12)"
    if "k < 360" "real (Suc k) / 12 \<in> set mats" for k
  proof -
    from that(2) obtain i where "i < length mats" "mats ! i = real (Suc k) / 12"
      by (auto simp: in_set_conv_nth)
    from hit [OF that(1) this] show ?thesis by simp
  qed
qed


lemma filled_columns:
  fixes tc :: "(string \<times> float) list" and mats :: "real list"
  defines "merged \<equiv> merge_left df (zip (map snd tc) mats)"
  defines "X \<equiv> ffill None (map m_Maturities merged)"
  defines "Y \<equiv> ffill None (map m_Rate merged)"
  assumes mats: "Maturities (map fst tc) = Inr mats" and dist: "distinct mats"
  shows "length X = 360" and "length Y = 360"
    and "\<And>a k. a \<le> k \<Longrightarrow> k < 360 \<Longrightarrow> real (Suc a) / 12 \<in> set mats \<Longrightarrow>
           \<forall>j. a < j \<and> j \<le> k \<longrightarrow> real (Suc j) / 12 \<notin> set mats \<Longrightarrow>
           X ! k = Some (real (Suc a) / 12)"
    and "\<And>a k i r. a \<le> k \<Longrightarrow> k < 360 \<Longrightarrow> i < length mats \<Longrightarrow>
           mats ! i = real (Suc a) / 12 \<Longrightarrow> snd (tc ! i) = Some r \<Longrightarrow>
           \<forall>j. a < j \<and> j \<le> k \<longrightarrow> real (Suc j) / 12 \<notin> set mats \<Longrightarrow>
           Y ! k = Some r"
    and "1 / 12 \<in> set mats \<Longrightarrow> sorted (map nan_last X)"
    and "\<And>k. 1 / 12 \<in> set mats \<Longrightarrow> k < 360 \<Longrightarrow> X ! k \<noteq> None"
proof -
  note mc = merged_columns [OF mats dist, folded merged_def]
  let ?xr = "map m_Maturities merged" and ?yr = "map m_Rate merged"
  have lx: "length ?xr = 360" and ly: "length ?yr = 360"
    using mc(1) by simp_all
  show "length X = 360" and "length Y = 360"
    unfolding X_def Y_def using mc(1) by (simp_all add: length_ffill)
  have xr_hit: "?xr ! k = Some (real (Suc k) / 12)"
    if "k < 360" "real (Suc k) / 12 \<in> set mats" for k
    using mc(4) [OF that] that(1) mc(1) by simp
  have xr_miss: "?xr ! k = None" and yr_miss: "?yr ! k = None"
    if "k < 360" "real (Suc k) / 12 \<notin> set mats" for k
    using mc(5) [OF that] that(1) mc(1) by simp_all
  have grid: "\<forall>j<length ?xr. \<forall>u. ?xr ! j = Some u \<longrightarrow> u = real (Suc j) / 12"
  proof (intro allI impI)
    fix j u
    assume j: "j < length ?xr" and u: "?xr ! j = Some u"
    from j lx have j': "j < 360" by simp
    show "u = real (Suc j) / 12"
    proof (cases "real (Suc j) / 12 \<in> set mats")
      case True
      from xr_hit [OF j' True] u show ?thesis by simp
    next
      case False
      from xr_miss [OF j' False] u show ?thesis by simp
    qed
  qed
  show "X ! k = Some (real (Suc a) / 12)"
    if "a \<le> k" "k < 360" "real (Suc a) / 12 \<in> set mats"
      "\<forall>j. a < j \<and> j \<le> k \<longrightarrow> real (Suc j) / 12 \<notin> set mats" for a k
  proof -
    from that(1,2) have a: "a < 360" by simp
    have "\<forall>j. a < j \<and> j \<le> k \<longrightarrow> ?xr ! j = None"
      using that(2,4) xr_miss by auto
    with that(1,2) xr_hit [OF a that(3)] show ?thesis
      unfolding X_def by (intro ffill_hold) (simp_all only: lx)
  qed
  show "Y ! k = Some r"
    if "a \<le> k" "k < 360" "i < length mats" "mats ! i = real (Suc a) / 12" "snd (tc ! i) = Some r"
      "\<forall>j. a < j \<and> j \<le> k \<longrightarrow> real (Suc j) / 12 \<notin> set mats" for a k i r
  proof -
    from that(1,2) have a: "a < 360" by simp
    have "?yr ! a = Some r"
      using mc(6) [OF a that(3,4)] that(5) a mc(1) by simp
    moreover have "\<forall>j. a < j \<and> j \<le> k \<longrightarrow> ?yr ! j = None"
      using that(2,6) yr_miss by auto
    ultimately show ?thesis
      using that(1,2) unfolding Y_def by (intro ffill_hold) (simp_all only: ly)
  qed
  have first: "?xr ! 0 \<noteq> None" if "1 / 12 \<in> set mats"
    using xr_hit [of 0] that by simp
  have ne: "?xr \<noteq> []"
    using lx by auto
  show "sorted (map nan_last X)" if "1 / 12 \<in> set mats"
    unfolding X_def by (rule ffill_grid_sorted [OF ne first [OF that] grid])
  show "X ! k \<noteq> None" if "1 / 12 \<in> set mats" "k < 360" for k
    unfolding X_def using that(2) by (intro ffill_grid_no_nan first that) (simp only: lx)
qed


subsection \<open>Interpolation over sorted points\<close>

lemma y_interp_sorted:
  assumes len: "length x = length y" and ne: "x \<noteq> []"
    and sorted: "sorted (map nan_last x)"
    and lo: "\<forall>q\<in>set qs. \<not> flt_less (Some q) (x ! 0)"
    and hi: "\<forall>q\<in>set qs. \<not> flt_less (x ! (length x - 1)) (Some q)"
  shows "y_interp x y qs = Inr (map (np_interp_walk (zip x y)) qs)"
proof -
  have "map (\<lambda>p. nan_last (fst p)) (zip x y) = map nan_last (map fst (zip x y))"
    by simp
  also have "\<dots> = map nan_last x"
    using len by (simp only: map_fst_zip)
  finally have "sorted (map (\<lambda>p. nan_last (fst p)) (zip x y))"
    using sorted by simp
  then have ps: "interp1d x y = zip x y"
    unfolding interp1d_def by (rule sort_key_id_if_sorted)
  have zne: "zip x y \<noteq> []"
    using len ne by (cases x; cases y) simp_all
  have h: "fst (hd (zip x y)) = x ! 0"
    using len ne by (cases x; cases y) simp_all
  have "last (zip x y) = zip x y ! (length x - 1)"
    using zne len by (simp add: last_conv_nth)
  also have "\<dots> = (x ! (length x - 1), y ! (length x - 1))"
  proof (rule nth_zip)
    from ne have "0 < length x" by simp
    then show "length x - 1 < length x" by simp
    with len show "length x - 1 < length y" by simp
  qed
  finally have l: "fst (last (zip x y)) = x ! (length x - 1)"
    by simp
  have "np_interp (zip x y) q = np_interp_walk (zip x y) q" if "q \<in> set qs" for q
    using lo hi that by (simp add: np_interp_def h l)
  then have "map (np_interp (zip x y)) qs = map (np_interp_walk (zip x y)) qs"
    by simp
  then show ?thesis
    using lo hi zne by (simp add: y_interp_def ps h l)
qed

lemma build_curve_distinct:
  fixes tc :: "(string \<times> float) list" and mats :: "real list"
  defines "merged \<equiv> merge_left df (zip (map snd tc) mats)"
  defines "ps \<equiv> zip (ffill None (map m_Maturities merged)) (ffill None (map m_Rate merged))"
  assumes mats: "Maturities (map fst tc) = Inr mats" and dist: "distinct mats"
    and first: "1 / 12 \<in> set mats" and last: "30 \<in> set mats"
  shows "\<exists>rows. build_curve tc = Inr rows \<and> length rows = 360
     \<and> (\<forall>k<360. Months (rows ! k) = Suc k
           \<and> Rate_Interpolated (rows ! k) = np_interp_walk ps (real (Suc k) / 12))"
proof -
  let ?X = "ffill None (map m_Maturities merged)" and ?Y = "ffill None (map m_Rate merged)"
  let ?qs = "map m_Year merged"
  note mc = merged_columns [OF mats dist, folded merged_def]
  note fc = filled_columns [OF mats dist, folded merged_def]
  have lq: "length ?qs = 360"
    using mc(1) by simp
  have q: "\<exists>k<360. q = real (Suc k) / 12" if "q \<in> set ?qs" for q
  proof -
    from that obtain k where k: "k < length merged" and "q = m_Year (merged ! k)"
      by (auto simp: in_set_conv_nth)
    with mc(1) mc(3) [of k] show ?thesis by auto
  qed
  have x0: "?X ! 0 = Some (real (Suc 0) / 12)"
  proof (rule fc(3))
    show "real (Suc 0) / 12 \<in> set mats"
      using first by simp
    show "\<forall>j. 0 < j \<and> j \<le> 0 \<longrightarrow> real (Suc j) / 12 \<notin> set mats"
      by simp
  qed simp_all
  have xl: "?X ! 359 = Some (real (Suc 359) / 12)"
  proof (rule fc(3))
    show "real (Suc 359) / 12 \<in> set mats"
      using last by simp
    show "\<forall>j. 359 < j \<and> j \<le> 359 \<longrightarrow> real (Suc j) / 12 \<notin> set mats"
      by (metis not_le)
  qed simp_all
  have len: "length ?X = length ?Y"
    by (simp only: fc(1,2))
  have ne: "?X \<noteq> []"
    using fc(1) by auto
  have lo: "\<forall>q\<in>set ?qs. \<not> flt_less (Some q) (?X ! 0)"
  proof
    fix q assume "q \<in> set ?qs"
    from q [OF this] obtain k where "q = real (Suc k) / 12" by blast
    then show "\<not> flt_less (Some q) (?X ! 0)"
      by (simp add: x0 flt_less_def)
  qed
  have hi: "\<forall>q\<in>set ?qs. \<not> flt_less (?X ! (length ?X - 1)) (Some q)"
  proof
    fix q assume "q \<in> set ?qs"
    from q [OF this] obtain k where "k < 360" "q = real (Suc k) / 12" by blast
    then show "\<not> flt_less (?X ! (length ?X - 1)) (Some q)"
      by (simp add: fc(1) xl flt_less_def)
  qed
  have yi: "y_interp ?X ?Y ?qs = Inr (map (np_interp_walk ps) ?qs)"
    unfolding ps_def by (rule y_interp_sorted [OF len ne fc(5) [OF first] lo hi])
  define rows where "rows = map2 (\<lambda>row r. \<lparr> Months = m_Months row, Year = m_Year row,
      Rate_Interpolated = r, VDF = VDF_cell r (m_Year row) \<rparr>) merged (map (np_interp_walk ps) ?qs)"
  have b: "build_curve tc = Inr rows"
    using yi by (simp add: build_curve_def mats Let_def merged_def [symmetric] rows_def)
  have lr: "length rows = 360"
    using mc(1) by (simp add: rows_def)
  have "Months (rows ! k) = Suc k
      \<and> Rate_Interpolated (rows ! k) = np_interp_walk ps (real (Suc k) / 12)" if "k < 360" for k
  proof -
    have "Months (rows ! k) = m_Months (merged ! k)"
      and "Rate_Interpolated (rows ! k) = np_interp_walk ps (m_Year (merged ! k))"
      using that mc(1) by (simp_all add: rows_def)
    then show ?thesis
      unfolding mc(2) [OF that] mc(3) [OF that] by blast
  qed
  with b lr show ?thesis by blast
qed

lemma walk_prefix_le:
  fixes tc :: "(string \<times> float) list" and mats :: "real list"
  defines "merged \<equiv> merge_left df (zip (map snd tc) mats)"
  defines "ps \<equiv> zip (ffill None (map m_Maturities merged)) (ffill None (map m_Rate merged))"
  assumes mats: "Maturities (map fst tc) = Inr mats" and dist: "distinct mats"
    and first: "1 / 12 \<in> set mats"
    and c: "c < 360" and xc: "fst (ps ! c) = Some v" and q: "v \<le> q"
  shows "\<forall>p\<in>set (take c ps). flt_le (fst p) (Some q)"
proof
  let ?X = "ffill None (map m_Maturities merged)" and ?Y = "ffill None (map m_Rate merged)"
  note fc = filled_columns [OF mats dist, folded merged_def]
  fix p assume "p \<in> set (take c ps)"
  then obtain j where j: "j < c" and p: "p = ps ! j"
    by (auto simp: in_set_conv_nth)
  from j c have j': "j < 360" by simp
  have pj: "fst (ps ! j) = ?X ! j"
    using j' fc(1,2) by (simp add: ps_def)
  have pc: "fst (ps ! c) = ?X ! c"
    using c fc(1,2) by (simp add: ps_def)
  from fc(6) [OF first j'] obtain u where u: "?X ! j = Some u" by auto
  have "map nan_last ?X ! j \<le> map nan_last ?X ! c"
    using j c fc(1) by (intro sorted_nth_mono [OF fc(5) [OF first]]) simp_all
  then have "nan_last (?X ! j) \<le> nan_last (?X ! c)"
    using j' c fc(1) by simp
  then have "u \<le> v"
    using xc by (simp add: u pc [symmetric])
  with q show "flt_le (fst p) (Some q)"
    by (simp add: p pj u flt_le_def)
qed

lemma walk_bracket:
  fixes tc :: "(string \<times> float) list" and mats :: "real list"
  defines "merged \<equiv> merge_left df (zip (map snd tc) mats)"
  defines "ps \<equiv> zip (ffill None (map m_Maturities merged)) (ffill None (map m_Rate merged))"
  assumes mats: "Maturities (map fst tc) = Inr mats" and dist: "distinct mats"
    and first: "1 / 12 \<in> set mats"
    and ab: "a < b" "b < 360"
    and knot_a: "i < length mats" "mats ! i = real (Suc a) / 12" "snd (tc ! i) = Some ra"
    and knot_b: "real (Suc b) / 12 \<in> set mats"
    and gap: "\<forall>j. a < j \<and> j < b \<longrightarrow> real (Suc j) / 12 \<notin> set mats"
    and k: "a \<le> k" "k < b"
  shows "np_interp_walk ps (real (Suc k) / 12) =
     (if k = a then Some ra
      else lin_segment (Some (real (Suc a) / 12)) (Some ra) (Some (real (Suc b) / 12))
             (snd (ps ! b)) (real (Suc k) / 12))"
proof -
  let ?X = "ffill None (map m_Maturities merged)" and ?Y = "ffill None (map m_Rate merged)"
  let ?q = "real (Suc k) / 12"
  note fc = filled_columns [OF mats dist, folded merged_def]
  obtain c where c: "b = Suc c"
    using ab(1) by (cases b) simp_all
  have ac: "a \<le> c" and c360: "c < 360"
    using ab c by simp_all
  have lps: "length ps = 360"
    using fc(1,2) by (simp add: ps_def)
  have nth: "ps ! j = (?X ! j, ?Y ! j)" if "j < 360" for j
    using that fc(1,2) by (simp add: ps_def)
  have ain: "real (Suc a) / 12 \<in> set mats"
    using knot_a(1,2) by (metis nth_mem)
  have gap': "\<forall>j. a < j \<and> j \<le> c \<longrightarrow> real (Suc j) / 12 \<notin> set mats"
    using gap c by auto
  have xc: "?X ! c = Some (real (Suc a) / 12)"
    by (rule fc(3) [OF ac c360 ain gap'])
  have yc: "?Y ! c = Some ra"
    by (rule fc(4) [OF ac c360 knot_a gap'])
  have xb: "?X ! b = Some (real (Suc b) / 12)"
  proof (rule fc(3) [OF _ ab(2) knot_b])
    show "\<forall>j. b < j \<and> j \<le> b \<longrightarrow> real (Suc j) / 12 \<notin> set mats"
      by (metis not_le)
  qed simp
  have split: "ps = take c ps @ ps ! c # ps ! b # drop (Suc b) ps"
  proof -
    have "ps = take c ps @ ps ! c # drop (Suc c) ps"
      using c360 lps by (intro id_take_nth_drop) simp
    moreover have "drop (Suc c) ps = ps ! b # drop (Suc b) ps"
      using ab(2) lps c by (simp add: Cons_nth_drop_Suc)
    ultimately show ?thesis by simp
  qed
  have le: "real (Suc a) / 12 \<le> ?q"
    using k(1) by (simp add: divide_le_cancel)
  have lt: "?q < real (Suc b) / 12"
    using k(2) by (simp add: divide_less_cancel)
  have us: "\<forall>p\<in>set (take c ps). flt_le (fst p) (Some ?q)"
    unfolding ps_def merged_def
  proof (rule walk_prefix_le [OF mats dist first c360 _ le])
    show "fst (zip (ffill None (map m_Maturities (merge_left df (zip (map snd tc) mats))))
        (ffill None (map m_Rate (merge_left df (zip (map snd tc) mats)))) ! c)
        = Some (real (Suc a) / 12)"
      using nth [OF c360] xc by (simp add: ps_def merged_def)
  qed
  have p0: "flt_le (fst (ps ! c)) (Some ?q)"
    using le by (simp add: nth [OF c360] xc flt_le_def del: of_nat_Suc)
  have p1: "\<not> flt_le (fst (ps ! b)) (Some ?q)"
    using lt by (simp add: nth [OF ab(2)] xb flt_le_def del: of_nat_Suc)
  have "np_interp_walk ps ?q = np_interp_walk (take c ps @ ps ! c # ps ! b # drop (Suc b) ps) ?q"
    using split by simp
  also have "\<dots> = (if fst (ps ! c) = Some ?q then snd (ps ! c)
       else lin_segment (fst (ps ! c)) (snd (ps ! c)) (fst (ps ! b)) (snd (ps ! b)) ?q)"
    by (rule np_interp_walk_segment [OF us p0 p1])
  also have "\<dots> = (if real (Suc a) / 12 = ?q then Some ra
       else lin_segment (Some (real (Suc a) / 12)) (Some ra) (Some (real (Suc b) / 12))
              (snd (ps ! b)) ?q)"
    by (simp add: nth [OF c360] nth [OF ab(2)] xc yc xb del: of_nat_Suc)
  also have "real (Suc a) / 12 = ?q \<longleftrightarrow> k = a"
    by auto
  finally show ?thesis .
qed

lemma walk_knot_rate:
  fixes tc :: "(string \<times> float) list" and mats :: "real list"
  defines "merged \<equiv> merge_left df (zip (map snd tc) mats)"
  defines "ps \<equiv> zip (ffill None (map m_Maturities merged)) (ffill None (map m_Rate merged))"
  assumes mats: "Maturities (map fst tc) = Inr mats" and dist: "distinct mats"
    and b: "b < 360"
    and knot_b: "j < length mats" "mats ! j = real (Suc b) / 12" "snd (tc ! j) = Some rb"
  shows "ps ! b = (Some (real (Suc b) / 12), Some rb)"
proof -
  note fc = filled_columns [OF mats dist, folded merged_def]
  have bin: "real (Suc b) / 12 \<in> set mats"
    using knot_b(1,2) by (metis nth_mem)
  have gap: "\<forall>j. b < j \<and> j \<le> b \<longrightarrow> real (Suc j) / 12 \<notin> set mats"
    by (metis not_le)
  have "ffill None (map m_Maturities merged) ! b = Some (real (Suc b) / 12)"
    by (rule fc(3) [OF le_refl b bin gap])
  moreover have "ffill None (map m_Rate merged) ! b = Some rb"
    by (rule fc(4) [OF le_refl b knot_b gap])
  ultimately show ?thesis
    using b fc(1,2) by (simp add: ps_def)
qed

lemma walk_last:
  fixes tc :: "(string \<times> float) list" and mats :: "real list"
  defines "merged \<equiv> merge_left df (zip (map snd tc) mats)"
  defines "ps \<equiv> zip (ffill None (map m_Maturities merged)) (ffill None (map m_Rate merged))"
  assumes mats: "Maturities (map fst tc) = Inr mats" and dist: "distinct mats"
    and first: "1 / 12 \<in> set mats"
    and knot: "j < length mats" "mats ! j = real (Suc 359) / 12" "snd (tc ! j) = Some r"
  shows "np_interp_walk ps (real (Suc 359) / 12) = Some r"
proof -
  note fc = filled_columns [OF mats dist, folded merged_def]
  have l: "ps ! 359 = (Some (real (Suc 359) / 12), Some r)"
    unfolding ps_def merged_def by (rule walk_knot_rate [OF mats dist _ knot]) simp
  have lps: "length ps = 360"
    using fc(1,2) by (simp add: ps_def)
  have split: "ps = take 359 ps @ [ps ! 359]"
  proof -
    have "ps = take 359 ps @ ps ! 359 # drop (Suc 359) ps"
      using lps by (intro id_take_nth_drop) simp
    then show ?thesis using lps by simp
  qed
  have us: "\<forall>p\<in>set (take 359 ps). flt_le (fst p) (Some (real (Suc 359) / 12))"
    unfolding ps_def merged_def
  proof (rule walk_prefix_le [OF mats dist first])
    show "fst (zip (ffill None (map m_Maturities (merge_left df (zip (map snd tc) mats))))
        (ffill None (map m_Rate (merge_left df (zip (map snd tc) mats)))) ! 359)
        = Some (real (Suc 359) / 12)"
      using l by (simp add: ps_def merged_def)
  qed simp_all
  have p0: "flt_le (fst (ps ! 359)) (Some (real (Suc 359) / 12))"
    by (simp add: l flt_le_def)
  have "np_interp_walk ps (real (Suc 359) / 12)
      = np_interp_walk (take 359 ps @ [ps ! 359]) (real (Suc 359) / 12)"
    using split by simp
  also have "\<dots> = snd (ps ! 359)"
    by (rule np_interp_walk_end [OF us p0])
  finally show ?thesis
    by (simp add: l)
qed


lemma next_knot:
  assumes "kb < 360" and "30 \<in> set mats"
  shows "\<exists>kc. kb < kc \<and> kc \<le> 360 \<and> real kc / 12 \<in> set mats
       \<and> (\<forall>k. kb < k \<and> k < kc \<longrightarrow> real k / 12 \<notin> set mats)"
proof -
  let ?P = "\<lambda>k. kb < k \<and> real k / 12 \<in> set mats"
  have P360: "?P 360"
    using assms by simp
  define kc where "kc = (LEAST k. ?P k)"
  have "?P kc"
    unfolding kc_def using P360 by (rule LeastI)
  moreover have "kc \<le> 360"
    unfolding kc_def using P360 by (rule Least_le)
  moreover have "real k / 12 \<notin> set mats" if "kb < k" "k < kc" for k
    using not_less_Least [of k ?P] that unfolding kc_def by blast
  ultimately show ?thesis by blast
qed

lemma rate_interpolated_bracket:
  fixes tc :: "(string \<times> float) list" and mats :: "real list"
  assumes mats: "Maturities (map fst tc) = Inr mats" and dist: "distinct mats"
    and first: "1 / 12 \<in> set mats" and last: "30 \<in> set mats"
    and knot_a: "i < length mats" "mats ! i = real ka / 12" "snd (tc ! i) = Some ra"
    and knot_b: "j < length mats" "mats ! j = real kb / 12" "snd (tc ! j) = Some rb"
    and ka: "1 \<le> ka" "ka < kb" "kb \<le> 360"
    and gap: "\<forall>k. ka < k \<and> k < kb \<longrightarrow> real k / 12 \<notin> set mats"
    and m: "ka \<le> m" "m \<le> kb"
  shows "\<exists>rows. build_curve tc = Inr rows \<and> length rows = 360
     \<and> Months (rows ! (m - 1)) = m
     \<and> Rate_Interpolated (rows ! (m - 1)) =
         Some ((rb - ra) / (real kb / 12 - real ka / 12) * (real m / 12 - real ka / 12) + ra)"
proof -
  define merged where "merged = merge_left df (zip (map snd tc) mats)"
  define ps where
    "ps = zip (ffill None (map m_Maturities merged)) (ffill None (map m_Rate merged))"
  from build_curve_distinct [OF mats dist first last, folded merged_def, folded ps_def]
  obtain rows where rows: "build_curve tc = Inr rows" "length rows = 360"
    and nth: "\<And>k. k < 360 \<Longrightarrow> Months (rows ! k) = Suc k
      \<and> Rate_Interpolated (rows ! k) = np_interp_walk ps (real (Suc k) / 12)"
    by blast
  obtain a where a: "ka = Suc a"
    using ka(1) by (cases ka) simp_all
  obtain b where b: "kb = Suc b"
    using ka(2) by (cases kb) simp_all
  obtain k where k: "m = Suc k"
    using m(1) ka(1) by (cases m) simp_all
  have k360: "k < 360" and b360: "b < 360" and ab: "a < b" and ak: "a \<le> k" and kb: "k \<le> b"
    using ka m a b k by simp_all
  have bin: "real (Suc b) / 12 \<in> set mats"
    using knot_b(1,2) b by (metis nth_mem)
  have walk: "np_interp_walk ps (real (Suc k) / 12) =
      Some ((rb - ra) / (real (Suc b) / 12 - real (Suc a) / 12)
            * (real (Suc k) / 12 - real (Suc a) / 12) + ra)"
  proof (cases "k < b")
    case True
    have gap': "\<forall>j. a < j \<and> j < b \<longrightarrow> real (Suc j) / 12 \<notin> set mats"
      using gap a b by auto
    have pb: "ps ! b = (Some (real (Suc b) / 12), Some rb)"
      unfolding ps_def merged_def
      by (rule walk_knot_rate [OF mats dist b360 knot_b(1) knot_b(2) [unfolded b] knot_b(3)])
    have "np_interp_walk ps (real (Suc k) / 12) =
       (if k = a then Some ra
        else lin_segment (Some (real (Suc a) / 12)) (Some ra) (Some (real (Suc b) / 12))
               (snd (ps ! b)) (real (Suc k) / 12))"
      unfolding ps_def merged_def
      by (rule walk_bracket [OF mats dist first ab b360 knot_a(1) knot_a(2) [unfolded a]
            knot_a(3) bin gap' ak True])
    then show ?thesis
      by (simp add: pb lin_segment_def del: of_nat_Suc)
  next
    case False
    with kb have kb': "k = b" by simp
    have ne: "real (Suc b) / 12 - real (Suc a) / 12 \<noteq> 0"
      using ab by simp
    have "np_interp_walk ps (real (Suc b) / 12) = Some rb"
    proof (cases "b = 359")
      case True
      show ?thesis
        unfolding ps_def merged_def True
        by (rule walk_last [OF mats dist first knot_b(1) knot_b(2) [unfolded b True] knot_b(3)])
    next
      case False
      with b360 have "kb < 360" using b by simp
      from next_knot [OF this last] obtain kc where
        kc: "kb < kc" "kc \<le> 360" "real kc / 12 \<in> set mats"
          "\<forall>k. kb < k \<and> k < kc \<longrightarrow> real k / 12 \<notin> set mats"
        by blast
      obtain c where c: "kc = Suc c"
        using kc(1) by (cases kc) simp_all
      have bc: "b < c" "c < 360"
        using kc(1,2) b c by simp_all
      have cin: "real (Suc c) / 12 \<in> set mats"
        using kc(3) c by simp
      have gap': "\<forall>j. b < j \<and> j < c \<longrightarrow> real (Suc j) / 12 \<notin> set mats"
        using kc(4) b c by auto
      have "np_interp_walk ps (real (Suc b) / 12) =
         (if b = b then Some rb
          else lin_segment (Some (real (Suc b) / 12)) (Some rb) (Some (real (Suc c) / 12))
                 (snd (ps ! c)) (real (Suc b) / 12))"
        unfolding ps_def merged_def
        by (rule walk_bracket [OF mats dist first bc knot_b(1) knot_b(2) [unfolded b]
              knot_b(3) cin gap' le_refl bc(1)])
      then show ?thesis by simp
    qed
    moreover have "(rb - ra) / (real (Suc b) / 12 - real (Suc a) / 12)
            * (real (Suc b) / 12 - real (Suc a) / 12) + ra = rb"
      using ne by (simp del: of_nat_Suc)
    ultimately show ?thesis
      by (simp only: kb')
  qed
  have "Months (rows ! (m - 1)) = m"
    using nth [OF k360] by (simp add: k)
  moreover have "Rate_Interpolated (rows ! (m - 1)) =
      Some ((rb - ra) / (real kb / 12 - real ka / 12) * (real m / 12 - real ka / 12) + ra)"
    using nth [OF k360] walk by (simp only: k a b diff_Suc_1)
  ultimately show ?thesis
    using rows by blast
qed

subsection \<open>Example curves\<close>

lemmas eval_Maturities =
  Maturities_cell_def py_int_def py_strip_def py_isspace_def py_isdigit_def digits_value_def Let_def

lemma Maturities_two_points: "Maturities [''1 Mo'', ''30 Yr''] = Inr [1 / 12, 30]"
  by (simp add: eval_Maturities)

lemma Maturities_short_curve: "Maturities [''1 Mo'', ''20 Yr''] = Inr [1 / 12, 20]"
  by (simp add: eval_Maturities)

lemma Maturities_late_curve: "Maturities [''3 Mo'', ''30 Yr''] = Inr [3 / 12, 30]"
  by (simp add: eval_Maturities)



lemma two_points_rows:
  "\<exists>rows. build_curve [(''1 Mo'', Some 2), (''30 Yr'', Some 4)] = Inr rows \<and> length rows = 360
     \<and> Months (rows ! 0) = 1 \<and> Rate_Interpolated (rows ! 0) = Some 2
     \<and> Months (rows ! 1) = 2 \<and> Rate_Interpolated (rows ! 1) = Some (720 / 359)"
proof -
  let ?tc = "[(''1 Mo'', Some 2), (''30 Yr'', Some (4::real))]"
  have mats: "Maturities (map fst ?tc) = Inr [1 / 12, 30]"
    using Maturities_two_points by simp
  have gap: "\<forall>k. 1 < k \<and> k < 360 \<longrightarrow> real k / 12 \<notin> set [1 / 12, 30]"
    by auto
  have r1: "\<exists>rows. build_curve ?tc = Inr rows \<and> length rows = 360
     \<and> Months (rows ! (1 - 1)) = 1
     \<and> Rate_Interpolated (rows ! (1 - 1)) =
         Some ((4 - 2) / (real 360 / 12 - real 1 / 12) * (real 1 / 12 - real 1 / 12) + 2)"
    by (rule rate_interpolated_bracket [OF mats, where i = 0 and j = 1 and ka = 1 and kb = 360])
      (simp_all add: gap)
  have r2: "\<exists>rows. build_curve ?tc = Inr rows \<and> length rows = 360
     \<and> Months (rows ! (2 - 1)) = 2
     \<and> Rate_Interpolated (rows ! (2 - 1)) =
         Some ((4 - 2) / (real 360 / 12 - real 1 / 12) * (real 2 / 12 - real 1 / 12) + 2)"
    by (rule rate_interpolated_bracket [OF mats, where i = 0 and j = 1 and ka = 1 and kb = 360])
      (simp_all add: gap)
  from r1 r2 show ?thesis
    by auto
qed


theorem discount_factor_formula_witness:
  "\<exists>rows. build_curve [(''1 Mo'', Some 2), (''30 Yr'', Some 4)] = Inr rows
     \<and> (1::nat) \<le> 1 \<and> (1::nat) \<le> 360
     \<and> (\<exists>row\<in>set rows. Months row = 1 \<and> Rate_Interpolated row = Some 2
            \<and> 0 < 1 + (2::real) / 100 \<and> Year row = real 1 / 12
            \<and> VDF row = Some ((1 + 2 / 100) powr (- (real 1 / 12))))"
proof -
  from two_points_rows obtain rows where
    rows: "build_curve [(''1 Mo'', Some 2), (''30 Yr'', Some 4)] = Inr rows"
    and len: "length rows = 360"
    and r0: "Months (rows ! 0) = 1" "Rate_Interpolated (rows ! 0) = Some 2"
    by blast
  have mem: "rows ! 0 \<in> set rows"
    using len by (intro nth_mem) simp
  have pos: "0 < 1 + (2::real) / 100" by simp
  from discount_factor_formula [OF rows, of 1] mem r0
  have "Year (rows ! 0) = real 1 / 12"
    and "VDF (rows ! 0) = Some ((1 + 2 / 100) powr (- (real 1 / 12)))"
    using pos by auto
  with rows mem r0 pos show ?thesis by auto
qed

lemma discount_factors_decrease_example:
  "\<exists>rows. build_curve [(''1 Mo'', Some 2), (''30 Yr'', Some 4)] = Inr rows
     \<and> (\<exists>row1\<in>set rows. \<exists>row2\<in>set rows.
            Months row2 = Months row1 + 1
          \<and> Rate_Interpolated row1 = Some 2 \<and> Rate_Interpolated row2 = Some (720 / 359)
          \<and> (0::real) < 2 \<and> (2::real) < 720 / 359
          \<and> (\<exists>d1 d2. VDF row1 = Some d1 \<and> VDF row2 = Some d2 \<and> d2 < d1))"
proof -
  from two_points_rows obtain rows where
    rows: "build_curve [(''1 Mo'', Some 2), (''30 Yr'', Some 4)] = Inr rows"
    and len: "length rows = 360"
    and r0: "Months (rows ! 0) = 1" "Rate_Interpolated (rows ! 0) = Some 2"
    and r1: "Months (rows ! 1) = 2" "Rate_Interpolated (rows ! 1) = Some (720 / 359)"
    by blast
  have m0: "rows ! 0 \<in> set rows" and m1: "rows ! 1 \<in> set rows"
    using len by (simp_all add: nth_mem)
  have step: "Months (rows ! 1) = Months (rows ! 0) + 1"
    using r0 r1 by simp
  have h: "(0::real) < 2" "(2::real) < 720 / 359" by simp_all
  from discount_factors_decrease [OF rows m0 m1 step r0(2) r1(2) h]
  have "\<exists>d1 d2. VDF (rows ! 0) = Some d1 \<and> VDF (rows ! 1) = Some d2 \<and> d2 < d1" .
  with rows m0 m1 step r0 r1 h show ?thesis by blast
qed

text \<open>
  C3 (amended). Take the known maturities that fall on a month of the horizon. When the
  first month or the last month of the horizon is not among them, so that some month lies
  below the smallest or above the largest of them, the curve construction fails with the
  \<^verbatim>\<open>ValueError\<close> of the interpolator: there is no flat extrapolation. When both are
  among them (the maturities being distinct), the construction returns 360 rows, and the
  rate of every month between two neighbouring known maturities, ends included, is the
  linear interpolation of their two rates.
\<close>

theorem interpolation_inside_known_range:
  fixes treasury_curve_final :: "(string \<times> float) list"
  assumes "Maturities (map fst treasury_curve_final) = Inr mats"
  shows "(\<forall>k. 1 \<le> k \<and> k \<le> 360 \<and> real k / 12 \<in> set mats
             \<and> (1 / 12 \<notin> set mats \<or> 30 \<notin> set mats)
           \<longrightarrow> build_curve treasury_curve_final = Inl ValueError)
       \<and> (distinct mats \<and> 1 / 12 \<in> set mats \<and> 30 \<in> set mats \<longrightarrow>
           (\<forall>i j ka kb ra rb m.
               i < length mats \<and> mats ! i = real ka / 12 \<and> snd (treasury_curve_final ! i) = Some ra
             \<and> j < length mats \<and> mats ! j = real kb / 12 \<and> snd (treasury_curve_final ! j) = Some rb
             \<and> 1 \<le> ka \<and> ka < kb \<and> kb \<le> 360
             \<and> (\<forall>k. ka < k \<and> k < kb \<longrightarrow> real k / 12 \<notin> set mats)
             \<and> ka \<le> m \<and> m \<le> kb
             \<longrightarrow> (\<exists>rows. build_curve treasury_curve_final = Inr rows \<and> length rows = 360
                   \<and> Months (rows ! (m - 1)) = m
                   \<and> Rate_Interpolated (rows ! (m - 1)) =
                       Some ((rb - ra) / (real kb / 12 - real ka / 12)
                             * (real m / 12 - real ka / 12) + ra))))"
proof (intro conjI allI impI)
  fix k
  assume k: "1 \<le> k \<and> k \<le> 360 \<and> real k / 12 \<in> set mats
      \<and> (1 / 12 \<notin> set mats \<or> 30 \<notin> set mats)"
  show "build_curve treasury_curve_final = Inl ValueError"
  proof (cases "1 / 12 \<in> set mats")
    case True
    with k have "30 \<notin> set mats" by blast
    from build_curve_above_error [OF assms True this] show ?thesis .
  next
    case False
    from k have "1 \<le> k" "k \<le> 360" "real k / 12 \<in> set mats" by blast+
    from build_curve_below_error [OF assms False this] show ?thesis .
  qed
next
  fix i j ka kb ra rb m
  assume d: "distinct mats \<and> 1 / 12 \<in> set mats \<and> 30 \<in> set mats"
    and h: "i < length mats \<and> mats ! i = real ka / 12 \<and> snd (treasury_curve_final ! i) = Some ra
             \<and> j < length mats \<and> mats ! j = real kb / 12 \<and> snd (treasury_curve_final ! j) = Some rb
             \<and> 1 \<le> ka \<and> ka < kb \<and> kb \<le> 360
             \<and> (\<forall>k. ka < k \<and> k < kb \<longrightarrow> real k / 12 \<notin> set mats)
             \<and> ka \<le> m \<and> m \<le> kb"
  from d have d': "distinct mats" "1 / 12 \<in> set mats" "30 \<in> set mats" by blast+
  from h have h': "i < length mats" "mats ! i = real ka / 12" "snd (treasury_curve_final ! i) = Some ra"
    "j < length mats" "mats ! j = real kb / 12" "snd (treasury_curve_final ! j) = Some rb"
    "1 \<le> ka" "ka < kb" "kb \<le> 360"
    "\<forall>k. ka < k \<and> k < kb \<longrightarrow> real k / 12 \<notin> set mats"
    "ka \<le> m" "m \<le> kb"
    by blast+
  show "\<exists>rows. build_curve treasury_curve_final = Inr rows \<and> length rows = 360
       \<and> Months (rows ! (m - 1)) = m
       \<and> Rate_Interpolated (rows ! (m - 1)) =
           Some ((rb - ra) / (real kb / 12 - real ka / 12) * (real m / 12 - real ka / 12) + ra)"
    by (rule rate_interpolated_bracket [OF assms d' h'])
qed

theorem interpolation_inside_known_range_witness:
  "Maturities (map fst [(''1 Mo'', Some (2::real)), (''20 Yr'', Some 4)]) = Inr [1 / 12, 20]
   \<and> (1::nat) \<le> 1 \<and> (1::nat) \<le> 360 \<and> real 1 / 12 \<in> set [1 / 12, 20]
   \<and> (30::real) \<notin> set [1 / 12, 20]
   \<and> build_curve [(''1 Mo'', Some 2), (''20 Yr'', Some 4)] = Inl ValueError
   \<and> Maturities (map fst [(''1 Mo'', Some (2::real)), (''30 Yr'', Some 4)]) = Inr [1 / 12, 30]
   \<and> distinct [1 / 12, 30 :: real]
   \<and> (\<exists>rows. build_curve [(''1 Mo'', Some 2), (''30 Yr'', Some 4)] = Inr rows
         \<and> length rows = 360 \<and> Months (rows ! (180 - 1)) = 180
         \<and> Rate_Interpolated (rows ! (180 - 1)) =
              Some ((4 - 2) / (real 360 / 12 - real 1 / 12) * (real 180 / 12 - real 1 / 12) + 2))"
proof -
  let ?short = "[(''1 Mo'', Some (2::real)), (''20 Yr'', Some 4)]"
  let ?full = "[(''1 Mo'', Some (2::real)), (''30 Yr'', Some 4)]"
  have ms: "Maturities (map fst ?short) = Inr [1 / 12, 20]"
    using Maturities_short_curve by simp
  have mf: "Maturities (map fst ?full) = Inr [1 / 12, 30]"
    using Maturities_two_points by simp
  have gap: "\<forall>k. 1 < k \<and> k < 360 \<longrightarrow> real k / 12 \<notin> set [1 / 12, 30]"
    by auto
  have out: "build_curve ?short = Inl ValueError"
    using interpolation_inside_known_range [OF ms, THEN conjunct1, rule_format, of 1] by simp
  have "\<exists>rows. build_curve ?full = Inr rows
         \<and> length rows = 360 \<and> Months (rows ! (180 - 1)) = 180
         \<and> Rate_Interpolated (rows ! (180 - 1)) =
              Some ((4 - 2) / (real 360 / 12 - real 1 / 12) * (real 180 / 12 - real 1 / 12) + 2)"
    by (rule interpolation_inside_known_range [OF mf, THEN conjunct2, rule_format,
          where i = 0 and j = 1 and ka = 1 and kb = 360]) (simp_all add: gap)
  with ms mf gap out show ?thesis
    by simp
qed

text \<open>
  A curve that ends at 20 years is not extrapolated: the months after the 240th lie
  above the largest known maturity, and the construction raises instead of holding the
  20-year rate.
\<close>

theorem flat_extrapolation_counterexample:
  "build_curve [(''1 Mo'', Some 2), (''20 Yr'', Some 4)] = Inl ValueError"
proof -
  have "Maturities (map fst [(''1 Mo'', Some (2::real)), (''20 Yr'', Some 4)]) = Inr [1 / 12, 20]"
    using Maturities_short_curve by simp
  then show ?thesis
    by (rule build_curve_above_error) simp_all
qed


text \<open>
  C4. The conversion of a label that ends in \<^verbatim>\<open>Mo\<close> reads the first character only:
  the label \<^verbatim>\<open>10 Mo\<close> becomes one twelfth of a year and not ten twelfths, while the
  other branch reads two characters and turns \<^verbatim>\<open>30 Yr\<close> into 30 years.
\<close>

theorem ten_month_label: "Maturities [''10 Mo'', ''30 Yr''] = Inr [1 / 12, 30]"
  by (simp add: eval_Maturities)

subsection \<open>The run on a column of objects\<close>




















subsection \<open>A curve without any maturity on the monthly grid\<close>













end
